theory Spec2Isabelle
  imports Complex_Main
begin

unbundle bit_operations_syntax

section \<open>The noise processors of WhoaNoise\<close>

text \<open>
  The repository has two versions of the AudioWorklet processor. \<^verbatim>\<open>noise-processor.js\<close>
  reads its uniform samples from two prefilled buffers (double buffering); the other
  processor file (\<^verbatim>\<open>part_000\<close> among the sources, the same class without the buffers)
  calls \<^verbatim>\<open>Math.random()\<close> in \<^verbatim>\<open>white()\<close>. Its functions carry the suffix \<open>_plain\<close> here. The bodies of
  \<^verbatim>\<open>pink\<close>, \<^verbatim>\<open>brown\<close>, \<^verbatim>\<open>blue\<close>, \<^verbatim>\<open>violet\<close> and \<^verbatim>\<open>getSample\<close> are the same text in both files
  and differ only in the \<^verbatim>\<open>white()\<close> they call.

  Numbers are reals, and the arithmetic of doubles is exact real arithmetic. What the
  code keeps in a \<^verbatim>\<open>Float32Array\<close> (the two buffers and the rows of \<^verbatim>\<open>pink\<close>) is rounded
  to a 32-bit float when it is stored: \<open>fround\<close> below. \<^verbatim>\<open>Math.random()\<close> is a stream
  \<open>rand\<close> of values fixed in advance, read at the position \<open>randPos\<close>.
\<close>

subsection \<open>32-bit floats\<close>

text \<open>
  A store into a \<^verbatim>\<open>Float32Array\<close> rounds the number to the nearest 32-bit float, ties to
  the even mantissa (what \<^verbatim>\<open>Math.fround\<close> computes). The 32-bit floats are the numbers
  \<open>m * 2 ^ k / 2 ^ 149\<close> with an integer \<open>m\<close> of magnitude below \<open>2 ^ 24\<close> and \<open>k\<close> from 0 to
  253. \<open>rne\<close> rounds a real to the nearest integer, ties to even. \<open>f32_shift fuel k y\<close>
  looks for the first \<open>k\<close> with \<open>y < 2 ^ (24 + k)\<close>, the binade of \<open>y\<close>, going up at most
  \<open>fuel\<close> steps. A number of magnitude \<open>2 ^ 128 - 2 ^ 103\<close> or more becomes an infinity in
  the code, which the reals do not have: \<open>fround\<close> says nothing faithful there. With
  \<^verbatim>\<open>Math.random()\<close> in \<open>[0, 1)\<close>, all numbers that the processors store are within \<open>[-1, 1]\<close>.
\<close>

definition rne :: "real \<Rightarrow> int" where
  "rne y =
     (let f = \<lfloor>y\<rfloor>
      in if y - of_int f < 1 / 2 then f
         else if 1 / 2 < y - of_int f then f + 1
         else if even f then f else f + 1)"

fun f32_shift :: "nat \<Rightarrow> nat \<Rightarrow> real \<Rightarrow> nat" where
  "f32_shift 0 k y = k"
| "f32_shift (Suc fuel) k y = (if y < 2 ^ (24 + k) then k else f32_shift fuel (Suc k) y)"

definition fround :: "real \<Rightarrow> real" where
  "fround x =
     (let y = x * 2 ^ 149;
          k = f32_shift 253 0 \<bar>y\<bar>
      in of_int (rne (y / 2 ^ k)) * 2 ^ k / 2 ^ 149)"

subsection \<open>State\<close>

text \<open>
  The fields that the constructor of the processor without buffers assigns (lines 10 to
  24 there); \<open>violetLast\<close> is the two-element array. \<open>rand\<close> and \<open>randPos\<close> stand for
  \<^verbatim>\<open>Math.random()\<close>.
\<close>

record gen =
  noiseType :: string
  pinkRows :: "real list"
  pinkRunningSum :: real
  pinkIndex :: int
  pinkIndexMask :: int
  brownLast :: real
  blueLast :: real
  violetLast :: "real \<times> real"
  rand :: "nat \<Rightarrow> real"
  randPos :: nat

text \<open>
  The double-buffered processor adds the buffers and the frame counter (lines 13 to 22 and
  41 of noise-processor.js). \<open>activeBuffer\<close> and \<open>inactiveBuffer\<close> are references to one of
  the two arrays, so they are names of a buffer, not copies.
\<close>

datatype buf = BufA | BufB

record processor = gen +
  bufferSize :: nat
  bufferA :: "real list"
  bufferB :: "real list"
  index :: nat
  activeBuffer :: buf
  inactiveBuffer :: buf
  fillPointer :: nat
  frameCount :: nat

text \<open>The data of a message event: \<^verbatim>\<open>event.data.type\<close> and \<^verbatim>\<open>event.data.noiseType\<close>.\<close>

record message =
  msg_type :: string
  msg_noiseType :: string

fun buffer_of :: "buf \<Rightarrow> processor \<Rightarrow> real list" where
  "buffer_of BufA s = bufferA s"
| "buffer_of BufB s = bufferB s"

fun set_buffer :: "buf \<Rightarrow> real list \<Rightarrow> processor \<Rightarrow> processor" where
  "set_buffer BufA xs s = s\<lparr>bufferA := xs\<rparr>"
| "set_buffer BufB xs s = s\<lparr>bufferB := xs\<rparr>"

text \<open>
  Reading a typed array at or beyond its length gives \<^verbatim>\<open>undefined\<close>, which is not a
  number: the read is \<open>None\<close> there, and so is every function that would go on with it.
  A store beyond the length is ignored, as \<open>xs[i := v]\<close> does; a store inside keeps
  \<open>fround v\<close>.
\<close>

definition f32_get :: "real list \<Rightarrow> nat \<Rightarrow> real option" where
  "f32_get xs i = (if i < length xs then Some (xs ! i) else None)"

text \<open>\<^verbatim>\<open>Math.random()\<close>: the next value of the stream.\<close>

definition random :: "'a gen_scheme \<Rightarrow> real \<times> 'a gen_scheme" where
  "random s = (rand s (randPos s), s\<lparr>randPos := Suc (randPos s)\<rparr>)"

subsection \<open>The message handler\<close>

text \<open>\<^verbatim>\<open>this.port.onmessage\<close>, the same in both files (lines 45 to 49 of noise-processor.js).\<close>

definition onmessage :: "message \<Rightarrow> 'a gen_scheme \<Rightarrow> 'a gen_scheme" where
  "onmessage m s =
     (if msg_type m = ''setNoiseType'' then s\<lparr>noiseType := msg_noiseType m\<rparr> else s)"

subsection \<open>Buffers (noise-processor.js)\<close>

text \<open>
  \<^verbatim>\<open>bufferFill(buffer, start, count)\<close>, lines 55 to 59: the loop with its counter \<open>i\<close>, then
  the function. The constructor, lines 7 to 50, takes the stream of \<^verbatim>\<open>Math.random()\<close>
  values as its argument; a new \<^verbatim>\<open>Float32Array\<close> holds zeros. \<^verbatim>\<open>white()\<close>, lines 65 to 80.
  The buffers are \<^verbatim>\<open>Float32Array\<close>s, so the store of line 57 rounds.
\<close>

function bufferFill_loop :: "buf \<Rightarrow> nat \<Rightarrow> nat \<Rightarrow> nat \<Rightarrow> processor \<Rightarrow> processor" where
  "bufferFill_loop b start count i s =
     (if i < count \<and> start + i < length (buffer_of b s)
      then bufferFill_loop b start count (Suc i)
             (case random s of (r, s1) \<Rightarrow>
                set_buffer b ((buffer_of b s1)[start + i := fround (r * 2 - 1)]) s1)
      else s)"
  by pat_completeness auto
termination
  by (relation "measure (\<lambda>(b, start, count, i, s). count - i)") auto

declare bufferFill_loop.simps [simp del]

definition bufferFill :: "buf \<Rightarrow> nat \<Rightarrow> nat \<Rightarrow> processor \<Rightarrow> processor" where
  "bufferFill b start count s = bufferFill_loop b start count 0 s"

definition constructor :: "(nat \<Rightarrow> real) \<Rightarrow> processor" where
  "constructor rnd =
     (let s0 = \<lparr>noiseType = ''white'',
                pinkRows = replicate 16 0,
                pinkRunningSum = 0,
                pinkIndex = 0,
                pinkIndexMask = push_bit 16 1 - 1,
                brownLast = 0,
                blueLast = 0,
                violetLast = (0, 0),
                rand = rnd,
                randPos = 0,
                bufferSize = 48000 * 30,
                bufferA = replicate (48000 * 30) 0,
                bufferB = replicate (48000 * 30) 0,
                index = 0,
                activeBuffer = BufA,
                inactiveBuffer = BufB,
                fillPointer = 0,
                frameCount = 0\<rparr>;
          s1 = bufferFill BufA 0 (bufferSize s0) s0;
          s2 = bufferFill BufB 0 (bufferSize s1) s1
      in s2)"

definition white :: "processor \<Rightarrow> (real \<times> processor) option" where
  "white s =
     (case f32_get (buffer_of (activeBuffer s) s) (index s) of
        None \<Rightarrow> None
      | Some sample \<Rightarrow>
          (let s1 = s\<lparr>index := index s + 1\<rparr>
           in Some (sample,
                if index s1 \<ge> length (buffer_of (activeBuffer s1) s1)
                then s1\<lparr>activeBuffer := inactiveBuffer s1,
                        inactiveBuffer := activeBuffer s1,
                        index := 0,
                        fillPointer := 0\<rparr>
                else s1)))"

subsection \<open>The generators\<close>

text \<open>
  The loop of \<^verbatim>\<open>pink\<close> (lines 93 to 98) that counts the trailing zero bits of the counter,
  at most 16. \<^verbatim>\<open>n & 1\<close> and \<^verbatim>\<open>n >>= 1\<close> act on integers; the counter is an integer between 0
  and 65535.
\<close>

function pink_zeros :: "nat \<Rightarrow> int \<Rightarrow> nat" where
  "pink_zeros numZeros n =
     (if n AND 1 = 0 \<and> numZeros < 16 then pink_zeros (Suc numZeros) (drop_bit 1 n)
      else numZeros)"
  by pat_completeness auto
termination
  by (relation "measure (\<lambda>(numZeros, n). 16 - numZeros)") auto

declare pink_zeros.simps [simp del]

text \<open>
  The body of each generator after its call of \<^verbatim>\<open>white()\<close>; the argument \<open>w\<close> is the
  local constant \<^verbatim>\<open>white\<close>. In noise-processor.js: \<^verbatim>\<open>pink\<close> lines 86 to 110, \<^verbatim>\<open>brown\<close> 116 to
  122, \<^verbatim>\<open>blue\<close> 128 to 134, \<^verbatim>\<open>violet\<close> 140 to 148. \<^verbatim>\<open>pinkRows\<close> is a \<^verbatim>\<open>Float32Array\<close> in
  both files: the row keeps the rounded value, while \<^verbatim>\<open>pinkRunningSum\<close>, a double, is
  changed by the value itself. The other registers are doubles.
\<close>

definition pink_body :: "real \<Rightarrow> 'a gen_scheme \<Rightarrow> (real \<times> 'a gen_scheme) option" where
  "pink_body w s =
     (let s1 = s\<lparr>pinkIndex := (pinkIndex s + 1) AND pinkIndexMask s\<rparr>;
          numZeros = pink_zeros 0 (pinkIndex s1)
      in if numZeros < 16
         then (case f32_get (pinkRows s1) numZeros of
                 None \<Rightarrow> None
               | Some row \<Rightarrow>
                   (let s2 = s1\<lparr>pinkRunningSum := pinkRunningSum s1 - row\<rparr>;
                        newValue = w;
                        s3 = s2\<lparr>pinkRunningSum := pinkRunningSum s2 + newValue\<rparr>;
                        s4 = s3\<lparr>pinkRows := (pinkRows s3)[numZeros := fround newValue]\<rparr>
                    in Some ((pinkRunningSum s4 + w) / 17, s4)))
         else Some ((pinkRunningSum s1 + w) / 17, s1))"

definition brown_body :: "real \<Rightarrow> 'a gen_scheme \<Rightarrow> real \<times> 'a gen_scheme" where
  "brown_body w s =
     (let s1 = s\<lparr>brownLast := (brownLast s + (0.02 * w)) / 1.02\<rparr>
      in (brownLast s1 * 3.5, s1))"

definition blue_body :: "real \<Rightarrow> 'a gen_scheme \<Rightarrow> real \<times> 'a gen_scheme" where
  "blue_body w s =
     (let blue = w - blueLast s;
          s1 = s\<lparr>blueLast := w\<rparr>
      in (blue * 0.7, s1))"

definition violet_body :: "real \<Rightarrow> 'a gen_scheme \<Rightarrow> real \<times> 'a gen_scheme" where
  "violet_body w s =
     (let diff1 = w - fst (violetLast s);
          diff2 = diff1 - snd (violetLast s);
          s1 = s\<lparr>violetLast := (w, snd (violetLast s))\<rparr>;
          s2 = s1\<lparr>violetLast := (fst (violetLast s1), diff1)\<rparr>
      in (diff2 * 0.5, s2))"

subsubsection \<open>noise-processor.js\<close>

text \<open>Each generator calls \<^verbatim>\<open>this.white()\<close> first. \<^verbatim>\<open>getSample\<close> is the switch of lines 153 to 167.\<close>

definition pink :: "processor \<Rightarrow> (real \<times> processor) option" where
  "pink s = (case white s of None \<Rightarrow> None | Some (w, s1) \<Rightarrow> pink_body w s1)"

definition brown :: "processor \<Rightarrow> (real \<times> processor) option" where
  "brown s = (case white s of None \<Rightarrow> None | Some (w, s1) \<Rightarrow> Some (brown_body w s1))"

definition blue :: "processor \<Rightarrow> (real \<times> processor) option" where
  "blue s = (case white s of None \<Rightarrow> None | Some (w, s1) \<Rightarrow> Some (blue_body w s1))"

definition violet :: "processor \<Rightarrow> (real \<times> processor) option" where
  "violet s = (case white s of None \<Rightarrow> None | Some (w, s1) \<Rightarrow> Some (violet_body w s1))"

definition getSample :: "processor \<Rightarrow> (real \<times> processor) option" where
  "getSample s =
     (if noiseType s = ''pink'' then pink s
      else if noiseType s = ''brown'' then brown s
      else if noiseType s = ''blue'' then blue s
      else if noiseType s = ''violet'' then violet s
      else white s)"

subsubsection \<open>The processor without buffers\<close>

text \<open>
  The constructor (lines 7 to 32 of that file), \<^verbatim>\<open>white()\<close> (lines 37 to 39), which is
  \<^verbatim>\<open>Math.random() * 2 - 1\<close>, the four generators and \<^verbatim>\<open>getSample\<close> (lines 112 to 126).
\<close>

definition constructor_plain :: "(nat \<Rightarrow> real) \<Rightarrow> gen" where
  "constructor_plain rnd =
     \<lparr>noiseType = ''white'',
      pinkRows = replicate 16 0,
      pinkRunningSum = 0,
      pinkIndex = 0,
      pinkIndexMask = push_bit 16 1 - 1,
      brownLast = 0,
      blueLast = 0,
      violetLast = (0, 0),
      rand = rnd,
      randPos = 0\<rparr>"

definition white_plain :: "gen \<Rightarrow> (real \<times> gen) option" where
  "white_plain s = (case random s of (r, s1) \<Rightarrow> Some (r * 2 - 1, s1))"

definition pink_plain :: "gen \<Rightarrow> (real \<times> gen) option" where
  "pink_plain s = (case white_plain s of None \<Rightarrow> None | Some (w, s1) \<Rightarrow> pink_body w s1)"

definition brown_plain :: "gen \<Rightarrow> (real \<times> gen) option" where
  "brown_plain s =
     (case white_plain s of None \<Rightarrow> None | Some (w, s1) \<Rightarrow> Some (brown_body w s1))"

definition blue_plain :: "gen \<Rightarrow> (real \<times> gen) option" where
  "blue_plain s =
     (case white_plain s of None \<Rightarrow> None | Some (w, s1) \<Rightarrow> Some (blue_body w s1))"

definition violet_plain :: "gen \<Rightarrow> (real \<times> gen) option" where
  "violet_plain s =
     (case white_plain s of None \<Rightarrow> None | Some (w, s1) \<Rightarrow> Some (violet_body w s1))"

definition getSample_plain :: "gen \<Rightarrow> (real \<times> gen) option" where
  "getSample_plain s =
     (if noiseType s = ''pink'' then pink_plain s
      else if noiseType s = ''brown'' then brown_plain s
      else if noiseType s = ''blue'' then blue_plain s
      else if noiseType s = ''violet'' then violet_plain s
      else white_plain s)"

subsection \<open>The block dispatcher\<close>

text \<open>
  The two loops of \<^verbatim>\<open>process\<close> (lines 176 to 183 of noise-processor.js) are the same in
  both files; \<open>sample\<close> is the \<^verbatim>\<open>getSample\<close> of the file. \<open>output\<close> is \<^verbatim>\<open>outputs[0]\<close>, a list
  of channels. The inner loop runs over the positions of one channel, the outer loop over
  the channels. The arrays of \<^verbatim>\<open>outputs\<close> belong to the caller: the model returns the
  numbers that \<^verbatim>\<open>process\<close> assigns to their slots; what a slot then holds is up to the
  caller's array (a \<^verbatim>\<open>Float32Array\<close> keeps the 32-bit rounding).
\<close>

function fill_channel ::
  "('s \<Rightarrow> (real \<times> 's) option) \<Rightarrow> nat \<Rightarrow> real list \<Rightarrow> 's \<Rightarrow> (real list \<times> 's) option" where
  "fill_channel sample i outputChannel s =
     (if i < length outputChannel
      then (case sample s of
              None \<Rightarrow> None
            | Some (x, s1) \<Rightarrow> fill_channel sample (Suc i) (outputChannel[i := x]) s1)
      else Some (outputChannel, s))"
  by pat_completeness auto
termination
  by (relation "measure (\<lambda>(sample, i, outputChannel, s). length outputChannel - i)") auto

declare fill_channel.simps [simp del]

function fill_channels ::
  "('s \<Rightarrow> (real \<times> 's) option) \<Rightarrow> nat \<Rightarrow> real list list \<Rightarrow> 's
     \<Rightarrow> (real list list \<times> 's) option" where
  "fill_channels sample channel output s =
     (if channel < length output
      then (case fill_channel sample 0 (output ! channel) s of
              None \<Rightarrow> None
            | Some (outputChannel, s1) \<Rightarrow>
                fill_channels sample (Suc channel) (output[channel := outputChannel]) s1)
      else Some (output, s))"
  by pat_completeness auto
termination
  by (relation "measure (\<lambda>(sample, channel, output, s). length output - channel)") auto

declare fill_channels.simps [simp del]

text \<open>The throttled refill at the end of \<^verbatim>\<open>process\<close> in noise-processor.js, lines 187 to 192.\<close>

definition refill :: "processor \<Rightarrow> processor" where
  "refill s =
     (let s1 = s\<lparr>frameCount := frameCount s + 1\<rparr>
      in if frameCount s1 mod 10 = 0 \<and> fillPointer s1 < bufferSize s1
         then (let refillAmount = 4800;
                   s2 = bufferFill (inactiveBuffer s1) (fillPointer s1) refillAmount s1
               in s2\<lparr>fillPointer := fillPointer s2 + refillAmount\<rparr>)
         else s1)"

text \<open>
  \<^verbatim>\<open>process\<close> returns \<^verbatim>\<open>true\<close> every time; the model returns the arrays it has written
  and the new state. With no output at all, \<^verbatim>\<open>outputs[0].length\<close> throws: \<open>None\<close>.
\<close>

definition process ::
  "real list list list \<Rightarrow> processor \<Rightarrow> (real list list list \<times> processor) option" where
  "process outputs s =
     (case outputs of
        [] \<Rightarrow> None
      | output # rest \<Rightarrow>
          (case fill_channels getSample 0 output s of
             None \<Rightarrow> None
           | Some (output', s1) \<Rightarrow> Some (output' # rest, refill s1)))"

definition process_plain ::
  "real list list list \<Rightarrow> gen \<Rightarrow> (real list list list \<times> gen) option" where
  "process_plain outputs s =
     (case outputs of
        [] \<Rightarrow> None
      | output # rest \<Rightarrow>
          (case fill_channels getSample_plain 0 output s of
             None \<Rightarrow> None
           | Some (output', s1) \<Rightarrow> Some (output' # rest, s1)))"

subsection \<open>Sequences of calls\<close>

text \<open>\<open>calls f n\<close> calls a generator \<open>n\<close> times and collects the samples in order.\<close>

fun calls :: "('s \<Rightarrow> (real \<times> 's) option) \<Rightarrow> nat \<Rightarrow> 's \<Rightarrow> (real list \<times> 's) option" where
  "calls f 0 s = Some ([], s)"
| "calls f (Suc n) s =
     (case f s of
        None \<Rightarrow> None
      | Some (x, s1) \<Rightarrow>
          (case calls f n s1 of None \<Rightarrow> None | Some (xs, s2) \<Rightarrow> Some (x # xs, s2)))"

text \<open>\<open>blocks p bs\<close> hands the blocks \<open>bs\<close> to \<^verbatim>\<open>process\<close> one after the other.\<close>

fun blocks ::
  "('b \<Rightarrow> 's \<Rightarrow> ('b \<times> 's) option) \<Rightarrow> 'b list \<Rightarrow> 's \<Rightarrow> ('b list \<times> 's) option" where
  "blocks p [] s = Some ([], s)"
| "blocks p (b # bs) s =
     (case p b s of
        None \<Rightarrow> None
      | Some (b', s1) \<Rightarrow>
          (case blocks p bs s1 of None \<Rightarrow> None | Some (bs', s2) \<Rightarrow> Some (b' # bs', s2)))"

subsection \<open>Notions used in the statements\<close>

text \<open>
  A processor is well formed when both buffers have the length \<open>bufferSize\<close>, the read
  cursor is inside, the two references name different buffers and there are 16 rows.
\<close>

definition well_formed :: "processor \<Rightarrow> bool" where
  "well_formed s \<longleftrightarrow>
     length (bufferA s) = bufferSize s \<and> length (bufferB s) = bufferSize s \<and>
     index s < bufferSize s \<and> activeBuffer s \<noteq> inactiveBuffer s \<and>
     length (pinkRows s) = 16"

text \<open>
  \<open>fresh rnd p k\<close>: the \<open>k\<close> values \<^verbatim>\<open>Math.random() * 2 - 1\<close> drawn from position \<open>p\<close> of
  the stream on, as a buffer keeps them; \<open>raw rnd p k\<close>: the same values as doubles.
  \<open>overwrite xs p ys\<close>: the array \<open>xs\<close> with \<open>ys\<close> in the places from index \<open>p\<close> on.
\<close>

definition raw :: "(nat \<Rightarrow> real) \<Rightarrow> nat \<Rightarrow> nat \<Rightarrow> real list" where
  "raw rnd p k = map (\<lambda>j. rnd (p + j) * 2 - 1) [0..<k]"

definition fresh :: "(nat \<Rightarrow> real) \<Rightarrow> nat \<Rightarrow> nat \<Rightarrow> real list" where
  "fresh rnd p k = map (\<lambda>j. fround (rnd (p + j) * 2 - 1)) [0..<k]"

definition overwrite :: "'a list \<Rightarrow> nat \<Rightarrow> 'a list \<Rightarrow> 'a list" where
  "overwrite xs p ys = take p xs @ ys @ drop (p + length ys) xs"

text \<open>\<open>unconcat ns xs\<close> cuts \<open>xs\<close> into consecutive pieces of the lengths \<open>ns\<close>.\<close>

fun unconcat :: "nat list \<Rightarrow> 'a list \<Rightarrow> 'a list list" where
  "unconcat [] xs = []"
| "unconcat (n # ns) xs = take n xs # unconcat ns (drop n xs)"

text \<open>
  \<open>advance s\<close> is the state that one \<^verbatim>\<open>white()\<close> leaves: the cursor one further, or the
  two buffers exchanged and cursor and marker at 0 when the cursor has reached the end.
\<close>

definition advance :: "processor \<Rightarrow> processor" where
  "advance s =
     (if bufferSize s \<le> Suc (index s)
      then s\<lparr>index := 0, activeBuffer := inactiveBuffer s, inactiveBuffer := activeBuffer s,
             fillPointer := 0\<rparr>
      else s\<lparr>index := Suc (index s)\<rparr>)"

text \<open>
  \<open>after_read s s1\<close>: apart from the six registers of the generators, \<open>s1\<close> is the state
  that one \<^verbatim>\<open>white()\<close> makes of \<open>s\<close>.
\<close>

definition after_read :: "processor \<Rightarrow> processor \<Rightarrow> bool" where
  "after_read s s1 \<longleftrightarrow>
     index s1 = index (advance s) \<and> activeBuffer s1 = activeBuffer (advance s) \<and>
     inactiveBuffer s1 = inactiveBuffer (advance s) \<and>
     fillPointer s1 = fillPointer (advance s) \<and>
     bufferSize s1 = bufferSize s \<and> bufferA s1 = bufferA s \<and> bufferB s1 = bufferB s \<and>
     rand s1 = rand s \<and> randPos s1 = randPos s \<and> frameCount s1 = frameCount s \<and>
     noiseType s1 = noiseType s \<and> pinkIndexMask s1 = pinkIndexMask s"

text \<open>
  Bounds: the registers of brown, blue and violet within their ranges; the contents of
  both buffers within \<open>[-1, 1]\<close>; the bound of the samples of each kind.
  \<open>pink_within k s\<close> describes the registers of pink after at most \<open>k\<close> samples, \<open>k\<close> below
  16384: the rows are within \<open>[-1, 1]\<close>, the rows 14 and 15 have not been written yet, and
  the running sum is away from the sum of the rows by at most \<open>k\<close> roundings of a row.
  \<open>buffers_f32 s\<close>: the buffers hold 32-bit floats.
\<close>

definition regs_bounded :: "'a gen_scheme \<Rightarrow> bool" where
  "regs_bounded s \<longleftrightarrow>
     \<bar>brownLast s\<bar> \<le> 1 \<and> \<bar>blueLast s\<bar> \<le> 1 \<and>
     \<bar>fst (violetLast s)\<bar> \<le> 1 \<and> \<bar>snd (violetLast s)\<bar> \<le> 2"

definition pink_within :: "nat \<Rightarrow> 'a gen_scheme \<Rightarrow> bool" where
  "pink_within k s \<longleftrightarrow>
     length (pinkRows s) = 16 \<and> list_all (\<lambda>x. \<bar>x\<bar> \<le> 1) (pinkRows s) \<and>
     pinkRows s ! 14 = 0 \<and> pinkRows s ! 15 = 0 \<and>
     pinkIndexMask s = 65535 \<and> 0 \<le> pinkIndex s \<and> pinkIndex s \<le> int k \<and>
     \<bar>pinkRunningSum s - sum_list (pinkRows s)\<bar> \<le> real k / 2 ^ 25"

text \<open>
  \<open>drifting k g\<close>: the processor without buffers after \<open>k\<close> samples of pink on the stream
  \<open>fine\<close>, where every \<^verbatim>\<open>Math.random()\<close> is \<open>1 / 2 ^ 30\<close>: the running sum is away from the
  sum of the rows by \<open>k / 2 ^ 29\<close>.
\<close>

definition fine :: "nat \<Rightarrow> real" where
  "fine n = 1 / 2 ^ 30"

definition drifting :: "nat \<Rightarrow> gen \<Rightarrow> bool" where
  "drifting k g \<longleftrightarrow>
     length (pinkRows g) = 16 \<and> pinkIndexMask g = 65535 \<and> pinkIndex g = int k \<and>
     rand g = fine \<and> pinkRunningSum g - sum_list (pinkRows g) = real k / 2 ^ 29"

definition buffers_bounded :: "processor \<Rightarrow> bool" where
  "buffers_bounded s \<longleftrightarrow>
     list_all (\<lambda>x. \<bar>x\<bar> \<le> 1) (bufferA s) \<and> list_all (\<lambda>x. \<bar>x\<bar> \<le> 1) (bufferB s)"

definition buffers_f32 :: "processor \<Rightarrow> bool" where
  "buffers_f32 s \<longleftrightarrow>
     list_all (\<lambda>x. fround x = x) (bufferA s) \<and> list_all (\<lambda>x. fround x = x) (bufferB s)"

definition bounded_state :: "string \<Rightarrow> nat \<Rightarrow> processor \<Rightarrow> bool" where
  "bounded_state t k s \<longleftrightarrow>
     well_formed s \<and> buffers_bounded s \<and> regs_bounded s \<and> pink_within k s \<and> noiseType s = t"

definition bounded_plain :: "string \<Rightarrow> nat \<Rightarrow> gen \<Rightarrow> bool" where
  "bounded_plain t k g \<longleftrightarrow>
     (\<forall>n. 0 \<le> rand g n \<and> rand g n \<le> 1) \<and> regs_bounded g \<and> pink_within k g \<and>
     noiseType g = t"

definition kind_bound :: "string \<Rightarrow> real" where
  "kind_bound t =
     (if t = ''brown'' then 3.5 else if t = ''blue'' then 1.4 else if t = ''violet'' then 2
      else 1)"

text \<open>
  Comparing the two files. A buffer keeps the 32-bit rounding of \<^verbatim>\<open>Math.random() * 2 - 1\<close>,
  the processor without buffers uses the double. \<open>rounded rnd\<close> is the stream whose white
  values are the 32-bit roundings of the white values of \<open>rnd\<close>:
  \<open>rounded rnd n * 2 - 1 = fround (rnd n * 2 - 1)\<close>. \<open>unbuffered s\<close> is the processor without
  buffers that has the registers of \<open>s\<close>, draws from the rounded stream and has drawn as
  many values as the cursor of \<open>s\<close> says.
  \<open>first_buffer s\<close>: \<open>s\<close> reads buffer A, and A holds the first values of the stream, as
  after the constructor. \<open>slots b\<close> is the number of samples that \<^verbatim>\<open>process\<close> writes for the
  arguments \<open>b\<close>.
\<close>

definition rounded :: "(nat \<Rightarrow> real) \<Rightarrow> nat \<Rightarrow> real" where
  "rounded rnd n = (fround (rnd n * 2 - 1) + 1) / 2"

definition unbuffered :: "processor \<Rightarrow> gen" where
  "unbuffered s =
     \<lparr>noiseType = noiseType s,
      pinkRows = pinkRows s,
      pinkRunningSum = pinkRunningSum s,
      pinkIndex = pinkIndex s,
      pinkIndexMask = pinkIndexMask s,
      brownLast = brownLast s,
      blueLast = blueLast s,
      violetLast = violetLast s,
      rand = rounded (rand s),
      randPos = index s\<rparr>"

definition first_buffer :: "processor \<Rightarrow> bool" where
  "first_buffer s \<longleftrightarrow>
     well_formed s \<and> activeBuffer s = BufA \<and> bufferA s = fresh (rand s) 0 (bufferSize s)"

definition slots :: "real list list list \<Rightarrow> nat" where
  "slots b = (case b of [] \<Rightarrow> 0 | out # rest \<Rightarrow> length (concat out))"

text \<open>
  \<open>draining rnd m s\<close> describes the double-buffered processor after \<open>m\<close> blocks of 128
  white samples, \<open>m\<close> at most 11249, so still in buffer A: from the 10th block on the
  refill has stored the stream value number 2880000 at index 0 of buffer B.
\<close>

definition draining :: "(nat \<Rightarrow> real) \<Rightarrow> nat \<Rightarrow> processor \<Rightarrow> bool" where
  "draining rnd m s \<longleftrightarrow>
     well_formed s \<and> bufferSize s = 1440000 \<and> noiseType s = ''white'' \<and> rand s = rnd \<and>
     activeBuffer s = BufA \<and> inactiveBuffer s = BufB \<and> index s = 128 * m \<and>
     frameCount s = m \<and> 4800 dvd fillPointer s \<and>
     (if m < 10 then fillPointer s = 0 \<and> randPos s = 2880000
      else 4800 \<le> fillPointer s \<and> bufferB s ! 0 = fround (rnd 2880000 * 2 - 1))"

text \<open>
  \<open>drawn rnd m g\<close> describes the processor without buffers after \<open>m\<close> blocks of 128 white
  samples.
\<close>

definition drawn :: "(nat \<Rightarrow> real) \<Rightarrow> nat \<Rightarrow> gen \<Rightarrow> bool" where
  "drawn rnd m g \<longleftrightarrow> noiseType g = ''white'' \<and> rand g = rnd \<and> randPos g = 128 * m"

text \<open>Streams of \<^verbatim>\<open>Math.random()\<close> values used in the examples.\<close>

definition half :: "nat \<Rightarrow> real" where
  "half n = 1 / 2"

definition alternating :: "nat \<Rightarrow> real" where
  "alternating n = (if even n then 15 / 16 else 1 / 16)"

definition square :: "nat \<Rightarrow> real" where
  "square n = (if even n then 1 else 0)"

definition two_level :: "nat \<Rightarrow> real" where
  "two_level n = (if n < 2880000 then 0 else 1 / 2)"

definition uneven :: "nat \<Rightarrow> real" where
  "uneven n = (if even n then 15 / 16 else 1 / 2 ^ 30)"

section \<open>Properties\<close>

subsection \<open>Rounding to 32 bits\<close>

lemma rne_of_int [simp]: "rne (of_int m) = m"
  by (simp add: rne_def)

lemma rne_err: "\<bar>of_int (rne y) - y\<bar> \<le> 1 / 2"
  unfolding rne_def Let_def by (auto simp: abs_le_iff)

lemma rne_ge: "of_int a \<le> y \<Longrightarrow> a \<le> rne y"
proof -
  assume "of_int a \<le> y"
  then have "a \<le> \<lfloor>y\<rfloor>" by (simp add: le_floor_iff)
  then show ?thesis unfolding rne_def Let_def by auto
qed

lemma rne_le: "y \<le> of_int b \<Longrightarrow> rne y \<le> b"
proof -
  assume h: "y \<le> of_int b"
  show ?thesis
  proof (cases "y = of_int b")
    case True then show ?thesis by simp
  next
    case False
    with h have "y < of_int b" by simp
    then have "\<lfloor>y\<rfloor> < b" by (simp add: floor_less_iff)
    then show ?thesis unfolding rne_def Let_def by auto
  qed
qed

lemma rne_abs_le: "\<bar>y\<bar> \<le> of_int b \<Longrightarrow> \<bar>rne y\<bar> \<le> b"
  using rne_le [of y b] rne_ge [of "- b" y] by (simp add: abs_le_iff)

lemma f32_shift_eq:
  "k \<le> j \<Longrightarrow> j \<le> k + fuel \<Longrightarrow> j = k \<or> 2 ^ (23 + j) \<le> y \<Longrightarrow>
   j = k + fuel \<or> y < 2 ^ (24 + j) \<Longrightarrow> f32_shift fuel k y = j"
proof (induction fuel arbitrary: k)
  case 0
  then show ?case by simp
next
  case (Suc fuel)
  show ?case
  proof (cases "y < 2 ^ (24 + k)")
    case True
    have "j = k"
    proof (rule ccontr)
      assume "j \<noteq> k"
      with Suc.prems have "k < j" "(2::real) ^ (23 + j) \<le> y" by auto
      moreover from \<open>k < j\<close> have "(2::real) ^ (24 + k) \<le> 2 ^ (23 + j)"
        by (intro power_increasing) auto
      ultimately show False using True by linarith
    qed
    with True show ?thesis by simp
  next
    case False
    have "j \<noteq> k"
    proof
      assume "j = k"
      with Suc.prems False show False by auto
    qed
    with Suc.prems have "Suc k \<le> j" "j \<le> Suc k + fuel" "j = Suc k \<or> 2 ^ (23 + j) \<le> y"
      "j = Suc k + fuel \<or> y < 2 ^ (24 + j)" by auto
    from Suc.IH [OF this] False show ?thesis by simp
  qed
qed

lemma f32_shift_spec:
  "k \<le> f32_shift fuel k y \<and> f32_shift fuel k y \<le> k + fuel \<and>
   (f32_shift fuel k y = k \<or> 2 ^ (23 + f32_shift fuel k y) \<le> y) \<and>
   (f32_shift fuel k y = k + fuel \<or> y < 2 ^ (24 + f32_shift fuel k y))"
proof (induction fuel arbitrary: k)
  case 0
  then show ?case by simp
next
  case (Suc fuel)
  show ?case
  proof (cases "y < 2 ^ (24 + k)")
    case True
    then show ?thesis by simp
  next
    case False
    from Suc.IH [of "Suc k"] False show ?thesis by auto
  qed
qed

lemma fround_fixed:
  assumes x: "x * 2 ^ 149 = of_int m * 2 ^ j"
    and j: "j = 0 \<or> 2 ^ 23 \<le> \<bar>m\<bar>" "j = 253 \<or> \<bar>m\<bar> < 2 ^ 24" "j \<le> 253"
  shows "fround x = x"
proof -
  have "\<bar>x * 2 ^ 149\<bar> = \<bar>of_int m * 2 ^ j\<bar>" using x by simp
  then have a: "\<bar>x * 2 ^ 149\<bar> = of_int \<bar>m\<bar> * 2 ^ j" by (simp add: abs_mult)
  have lt: "j = 0 + 253 \<or> \<bar>x * 2 ^ 149\<bar> < 2 ^ (24 + j)"
  proof (cases "j = 253")
    case False
    with j have "\<bar>m\<bar> < 2 ^ 24" by simp
    then have "of_int \<bar>m\<bar> < (2::real) ^ 24" by (metis of_int_less_numeral_power_cancel_iff)
    then show ?thesis unfolding a by (simp add: power_add)
  qed simp
  have ge: "j = 0 \<or> (2::real) ^ (23 + j) \<le> \<bar>x * 2 ^ 149\<bar>"
  proof (cases "j = 0")
    case False
    with j have "2 ^ 23 \<le> \<bar>m\<bar>" by simp
    then have "(2::real) ^ 23 \<le> of_int \<bar>m\<bar>" by (metis numeral_power_le_of_int_cancel_iff)
    then show ?thesis unfolding a by (simp add: power_add)
  qed simp
  have k: "f32_shift 253 0 \<bar>x * 2 ^ 149\<bar> = j"
    by (rule f32_shift_eq) (use j ge lt in auto)
  have "x * 2 ^ 149 / 2 ^ j = of_int m" unfolding x by simp
  then have "fround x = of_int m * 2 ^ j / 2 ^ 149" unfolding fround_def Let_def k by simp
  also have "\<dots> = x" unfolding x [symmetric] by simp
  finally show ?thesis .
qed

lemma fround_0 [simp]: "fround 0 = 0"
  using fround_fixed [of 0 0 0] by simp

lemma fround_shape:
  assumes "\<bar>x\<bar> \<le> 1"
  obtains j where "f32_shift 253 0 \<bar>x * 2 ^ 149\<bar> = j" "j \<le> 126"
    "j = 0 \<or> 2 ^ (23 + j) \<le> \<bar>x * 2 ^ 149\<bar>" "\<bar>x * 2 ^ 149\<bar> < 2 ^ (24 + j)"
proof -
  define y where "y = \<bar>x * 2 ^ 149\<bar>"
  define j where "j = f32_shift 253 0 y"
  have y: "y \<le> 2 ^ 149" using assms by (simp add: y_def abs_mult)
  from f32_shift_spec [of 0 253 y]
  have s: "j \<le> 253" "j = 0 \<or> 2 ^ (23 + j) \<le> y" "j = 253 \<or> y < 2 ^ (24 + j)"
    by (simp_all add: j_def)
  have le: "j \<le> 126"
  proof (rule ccontr)
    assume "\<not> j \<le> 126"
    then have "127 \<le> j" by simp
    then have "(2::real) ^ (23 + 127) \<le> 2 ^ (23 + j)" by (intro power_increasing) auto
    moreover from \<open>127 \<le> j\<close> s have "2 ^ (23 + j) \<le> y" by auto
    ultimately have "(2::real) ^ 150 \<le> y" by simp
    with y show False by simp
  qed
  with s have "y < 2 ^ (24 + j)" by auto
  with s le show ?thesis using that [of j] by (simp add: y_def j_def)
qed

lemma fround_abs_le:
  assumes "\<bar>x\<bar> \<le> 1"
  shows "\<bar>fround x\<bar> \<le> 1"
proof -
  from fround_shape [OF assms] obtain j where j: "f32_shift 253 0 \<bar>x * 2 ^ 149\<bar> = j" "j \<le> 126"
    by blast
  define c :: real where "c = 2 ^ 149"
  have c: "c = 2 ^ (149 - j) * 2 ^ j" using j unfolding c_def by (simp flip: power_add)
  have "\<bar>x * c / 2 ^ j\<bar> = \<bar>x\<bar> * 2 ^ (149 - j)" by (simp add: c abs_mult)
  also have "\<dots> \<le> 2 ^ (149 - j)" using assms by (simp add: mult_le_cancel_right1)
  finally have "\<bar>x * c / 2 ^ j\<bar> \<le> of_int (2 ^ (149 - j))" by simp
  then have "\<bar>rne (x * c / 2 ^ j)\<bar> \<le> 2 ^ (149 - j)" by (rule rne_abs_le)
  then have "\<bar>real_of_int (rne (x * c / 2 ^ j))\<bar> \<le> 2 ^ (149 - j)"
    by (metis of_int_abs of_int_le_numeral_power_cancel_iff)
  then have "\<bar>real_of_int (rne (x * c / 2 ^ j))\<bar> * 2 ^ j \<le> 2 ^ (149 - j) * 2 ^ j"
    by (simp add: mult_right_mono)
  then have "\<bar>real_of_int (rne (x * c / 2 ^ j)) * 2 ^ j / c\<bar> \<le> 1"
    unfolding c [symmetric] by (simp add: abs_mult c_def)
  then show ?thesis unfolding fround_def Let_def j c_def .
qed

lemma fround_err:
  assumes "\<bar>x\<bar> \<le> 1"
  shows "\<bar>fround x - x\<bar> \<le> 1 / 2 ^ 25"
proof -
  from fround_shape [OF assms] obtain j where j: "f32_shift 253 0 \<bar>x * 2 ^ 149\<bar> = j" "j \<le> 126"
    "j = 0 \<or> 2 ^ (23 + j) \<le> \<bar>x * 2 ^ 149\<bar>"
    by blast
  define c :: real where "c = 2 ^ 149"
  define r where "r = real_of_int (rne (x * c / 2 ^ j))"
  have f: "fround x = r * 2 ^ j / c" unfolding fround_def Let_def j c_def r_def by simp
  have cpos: "0 < c" by (simp add: c_def)
  have e: "fround x - x = (r - x * c / 2 ^ j) * 2 ^ j / c" using cpos by (simp add: f field_simps)
  have h: "\<bar>r - x * c / 2 ^ j\<bar> \<le> 1 / 2" unfolding r_def by (rule rne_err)
  show ?thesis
  proof (cases "j \<le> 125")
    case True
    have "\<bar>fround x - x\<bar> = \<bar>r - x * c / 2 ^ j\<bar> * (2 ^ j / c)"
      unfolding e using cpos by (simp add: abs_mult)
    also have "\<dots> \<le> 1 / 2 * (2 ^ j / c)" using h cpos by (intro mult_right_mono) auto
    also have "\<dots> \<le> 1 / 2 * (2 ^ 125 / c)"
      using True cpos by (intro mult_left_mono divide_right_mono power_increasing) auto
    also have "\<dots> = 1 / 2 ^ 25" by (simp add: c_def)
    finally show ?thesis .
  next
    case False
    with j have j126: "j = 126" by simp
    with j have "(2::real) ^ 149 \<le> \<bar>x * 2 ^ 149\<bar>" by simp
    then have "1 \<le> \<bar>x\<bar>" by (simp add: abs_mult)
    with assms have "x = 1 \<or> x = -1" by (auto simp: abs_le_iff abs_if split: if_splits)
    then have "x * c / 2 ^ j = of_int (if x = 1 then 2 ^ 23 else - (2 ^ 23))"
      by (auto simp: c_def j126)
    then have "r = x * c / 2 ^ j" unfolding r_def by (simp only: rne_of_int)
    then show ?thesis unfolding e by simp
  qed
qed

lemma fround_fround [simp]: "fround (fround x) = fround x"
proof -
  define j where "j = f32_shift 253 0 \<bar>x * 2 ^ 149\<bar>"
  from f32_shift_spec [of 0 253 "\<bar>x * 2 ^ 149\<bar>"]
  have j: "j \<le> 253" "j = 0 \<or> 2 ^ (23 + j) \<le> \<bar>x * 2 ^ 149\<bar>"
    "j = 253 \<or> \<bar>x * 2 ^ 149\<bar> < 2 ^ (24 + j)"
    by (simp_all add: j_def)
  define c :: real where "c = 2 ^ 149"
  define m where "m = rne (x * c / 2 ^ j)"
  have f: "fround x = of_int m * 2 ^ j / c"
    unfolding fround_def Let_def j_def [symmetric] c_def m_def by simp
  then have z: "fround x * 2 ^ 149 = of_int m * 2 ^ j" by (simp add: c_def)
  have up: "j = 253 \<or> \<bar>m\<bar> \<le> 2 ^ 24"
  proof (cases "j = 253")
    case False
    with j have "\<bar>x * c\<bar> < 2 ^ (24 + j)" by (simp add: c_def)
    then have "\<bar>x * c\<bar> / 2 ^ j < 2 ^ 24" by (simp add: power_add field_simps)
    then have "\<bar>x * c / 2 ^ j\<bar> \<le> of_int (2 ^ 24)" by simp
    then have "\<bar>m\<bar> \<le> 2 ^ 24" unfolding m_def by (rule rne_abs_le)
    then show ?thesis ..
  qed simp
  have low: "j = 0 \<or> 2 ^ 23 \<le> \<bar>m\<bar>"
  proof (cases "j = 0")
    case False
    with j have "(2::real) ^ (23 + j) \<le> \<bar>x * c\<bar>" by (simp add: c_def)
    then have g: "2 ^ 23 \<le> \<bar>x * c / 2 ^ j\<bar>" by (simp add: power_add field_simps)
    have "2 ^ 23 \<le> \<bar>m\<bar>"
    proof (cases "0 \<le> x")
      case True
      with g have "of_int (2 ^ 23) \<le> x * c / 2 ^ j" by (simp add: c_def)
      then have "2 ^ 23 \<le> m" unfolding m_def by (rule rne_ge)
      then show ?thesis by simp
    next
      case False
      then have "x * c / 2 ^ j \<le> 0" by (simp add: c_def mult_le_0_iff divide_le_0_iff)
      with g have "x * c / 2 ^ j \<le> of_int (- (2 ^ 23))" by simp
      then have "m \<le> - (2 ^ 23)" unfolding m_def by (rule rne_le)
      then show ?thesis by simp
    qed
    then show ?thesis ..
  qed simp
  show ?thesis
  proof (cases "j = 253 \<or> \<bar>m\<bar> < 2 ^ 24")
    case True
    show ?thesis by (rule fround_fixed [OF z low True j(1)])
  next
    case False
    with up have "\<bar>m\<bar> = 2 ^ 24" and j': "j < 253" using j(1) by simp_all
    then have "m = 2 * 2 ^ 23 \<or> m = 2 * (- (2 ^ 23))" by (auto simp: abs_if split: if_splits)
    then obtain m' :: int where m': "m = 2 * m'" "\<bar>m'\<bar> = 2 ^ 23" by auto
    have "fround x * 2 ^ 149 = of_int m' * 2 ^ Suc j" unfolding z m' by simp
    then show ?thesis by (rule fround_fixed) (use m' j' in simp_all)
  qed
qed

lemma fround_eval:
  assumes "x * 2 ^ 149 = y" "j = 0 \<or> 2 ^ (23 + j) \<le> \<bar>y\<bar>" "\<bar>y\<bar> < 2 ^ (24 + j)" "j \<le> 253"
  shows "fround x = of_int (rne (y / 2 ^ j)) * 2 ^ j / 2 ^ 149"
proof -
  have "f32_shift 253 0 \<bar>y\<bar> = j" by (rule f32_shift_eq) (use assms in auto)
  then show ?thesis unfolding fround_def Let_def assms(1) by simp
qed

lemma fround_7_8: "fround (7 / 8) = 7 / 8"
  using fround_fixed [of "7 / 8" "7 * 2 ^ 21" 125] by simp

lemma fround_m7_8: "fround (- (7 / 8)) = - (7 / 8)"
  using fround_fixed [of "- (7 / 8)" "- (7 * 2 ^ 21)" 125] by simp

lemma fround_m1: "fround (- 1) = - 1"
  using fround_fixed [of "- 1" "- (2 ^ 23)" 126] by simp

lemma fround_1: "fround 1 = 1"
  using fround_fixed [of "1" "2 ^ 23" 126] by simp

lemma fround_fine: "fround (1 / 2 ^ 30 * 2 - 1) = - 1"
  using fround_eval [of "1 / 2 ^ 30 * 2 - 1" "- (2 ^ 149) + 2 ^ 120" 125] by (simp add: rne_def)

subsection \<open>Arrays and the uniform source\<close>

lemma length_fresh [simp]: "length (fresh rnd p k) = k"
  by (simp add: fresh_def)

lemma nth_fresh [simp]: "j < k \<Longrightarrow> fresh rnd p k ! j = fround (rnd (p + j) * 2 - 1)"
  by (simp add: fresh_def)

lemma fresh_0 [simp]: "fresh rnd p 0 = []"
  by (simp add: fresh_def)

lemma fresh_Suc: "fresh rnd p (Suc k) = fround (rnd p * 2 - 1) # fresh rnd (Suc p) k"
  by (rule nth_equalityI) (auto simp: nth_Cons split: nat.splits)

lemma length_raw [simp]: "length (raw rnd p k) = k"
  by (simp add: raw_def)

lemma nth_raw [simp]: "j < k \<Longrightarrow> raw rnd p k ! j = rnd (p + j) * 2 - 1"
  by (simp add: raw_def)

lemma raw_0 [simp]: "raw rnd p 0 = []"
  by (simp add: raw_def)

lemma raw_Suc: "raw rnd p (Suc k) = (rnd p * 2 - 1) # raw rnd (Suc p) k"
  by (rule nth_equalityI) (auto simp: nth_Cons split: nat.splits)

lemma overwrite_Nil [simp]: "overwrite xs p [] = xs"
  by (simp add: overwrite_def)

lemma length_overwrite [simp]:
  "p + length ys \<le> length xs \<Longrightarrow> length (overwrite xs p ys) = length xs"
  by (simp add: overwrite_def)

lemma nth_overwrite:
  "p + length ys \<le> length xs \<Longrightarrow> k < length xs \<Longrightarrow>
   overwrite xs p ys ! k = (if p \<le> k \<and> k < p + length ys then ys ! (k - p) else xs ! k)"
  by (auto simp: overwrite_def nth_append)

lemma overwrite_update:
  "p < length xs \<Longrightarrow> overwrite (xs[p := v]) (Suc p) ys = overwrite xs p (v # ys)"
  by (simp add: overwrite_def take_Suc_conv_app_nth)

lemma overwrite_all [simp]: "length ys = length xs \<Longrightarrow> overwrite xs 0 ys = ys"
  by (simp add: overwrite_def)

lemma set_buffer_same [simp]: "set_buffer b (buffer_of b s) s = s"
  by (cases b) simp_all

lemma buffer_of_set_buffer [simp]:
  "buffer_of b (set_buffer c xs s) = (if b = c then xs else buffer_of b s)"
  by (cases b; cases c) simp_all

lemma buffer_of_randPos [simp]: "buffer_of b (s\<lparr>randPos := p\<rparr>) = buffer_of b s"
  by (cases b) simp_all

lemma set_buffer_twice [simp]: "set_buffer b xs (set_buffer b ys s) = set_buffer b xs s"
  by (cases b) simp_all

lemma set_buffer_randPos:
  "set_buffer b xs (s\<lparr>randPos := p\<rparr>) = (set_buffer b xs s)\<lparr>randPos := p\<rparr>"
  by (cases b) simp_all

lemma rand_set_buffer [simp]: "rand (set_buffer b xs s) = rand s"
  and randPos_set_buffer [simp]: "randPos (set_buffer b xs s) = randPos s"
  by (cases b; simp)+

lemma bufferFill_loop_eq:
  "bufferFill_loop b start count i s =
     (let n = min count (length (buffer_of b s) - start) - i
      in (set_buffer b (overwrite (buffer_of b s) (start + i) (fresh (rand s) (randPos s) n)) s)
           \<lparr>randPos := randPos s + n\<rparr>)"
proof (induction b start count i s rule: bufferFill_loop.induct)
  case (1 b start count i s)
  show ?case
  proof (cases "i < count \<and> start + i < length (buffer_of b s)")
    case False
    then have "min count (length (buffer_of b s) - start) - i = 0" by auto
    have "bufferFill_loop b start count i s = s"
      using False by (subst bufferFill_loop.simps) auto
    with \<open>min count (length (buffer_of b s) - start) - i = 0\<close> show ?thesis by simp
  next
    case True
    define s1 where "s1 =
      set_buffer b ((buffer_of b s)[start + i := fround (rand s (randPos s) * 2 - 1)])
        (s\<lparr>randPos := Suc (randPos s)\<rparr>)"
    define m where "m = min count (length (buffer_of b s) - start) - Suc i"
    have n: "min count (length (buffer_of b s) - start) - i = Suc m"
      using True by (auto simp: m_def)
    have step: "bufferFill_loop b start count i s = bufferFill_loop b start count (Suc i) s1"
      using True by (subst bufferFill_loop.simps) (simp add: s1_def random_def)
    have "bufferFill_loop b start count (Suc i) s1 =
       (let n = min count (length (buffer_of b s1) - start) - Suc i
        in (set_buffer b (overwrite (buffer_of b s1) (start + Suc i)
              (fresh (rand s1) (randPos s1) n)) s1)\<lparr>randPos := randPos s1 + n\<rparr>)"
      using "1.IH"[OF True] by (simp add: s1_def random_def)
    then have ih: "bufferFill_loop b start count (Suc i) s1 =
       (set_buffer b (overwrite (buffer_of b s) (start + i)
              (fround (rand s (randPos s) * 2 - 1) # fresh (rand s) (Suc (randPos s)) m)) s)
          \<lparr>randPos := randPos s + Suc m\<rparr>"
      using True
      by (simp add: s1_def Let_def m_def [symmetric] overwrite_update set_buffer_randPos)
    show ?thesis
      unfolding step ih by (simp add: n fresh_Suc)
  qed
qed

lemma constructor_eq:
  "constructor rnd =
     \<lparr>noiseType = ''white'',
      pinkRows = replicate 16 0,
      pinkRunningSum = 0,
      pinkIndex = 0,
      pinkIndexMask = 65535,
      brownLast = 0,
      blueLast = 0,
      violetLast = (0, 0),
      rand = rnd,
      randPos = 2880000,
      bufferSize = 1440000,
      bufferA = fresh rnd 0 1440000,
      bufferB = fresh rnd 1440000 1440000,
      index = 0,
      activeBuffer = BufA,
      inactiveBuffer = BufB,
      fillPointer = 0,
      frameCount = 0\<rparr>"
  by (simp add: constructor_def bufferFill_def bufferFill_loop_eq Let_def)

lemma well_formed_constructor: "well_formed (constructor rnd)"
  by (simp add: constructor_eq well_formed_def)

lemma white_eq:
  "index s < length (buffer_of (activeBuffer s) s) \<Longrightarrow>
   white s = Some (buffer_of (activeBuffer s) s ! index s,
     if length (buffer_of (activeBuffer s) s) \<le> Suc (index s)
     then s\<lparr>index := 0, activeBuffer := inactiveBuffer s, inactiveBuffer := activeBuffer s,
            fillPointer := 0\<rparr>
     else s\<lparr>index := Suc (index s)\<rparr>)"
  by (cases "activeBuffer s") (simp_all add: white_def f32_get_def Let_def)

lemma well_formed_active:
  "well_formed s \<Longrightarrow> length (buffer_of b s) = bufferSize s"
  by (cases b) (simp_all add: well_formed_def)

lemma white_well_formed:
  assumes "well_formed s"
  shows "\<exists>x s1. white s = Some (x, s1) \<and> well_formed s1"
proof -
  have len: "length (buffer_of (activeBuffer s) s) = bufferSize s"
    using assms by (rule well_formed_active)
  have "index s < length (buffer_of (activeBuffer s) s)"
    using assms unfolding len by (simp add: well_formed_def)
  from white_eq [OF this] assms show ?thesis
    unfolding len by (auto simp: well_formed_def)
qed

subsection \<open>Sequences of calls and the loops of the dispatcher\<close>

lemma calls_length: "calls f n s = Some (xs, s1) \<Longrightarrow> length xs = n"
  by (induction n arbitrary: s xs) (auto split: option.splits prod.splits)

lemma calls_add:
  "calls f (m + n) s =
     (case calls f m s of
        None \<Rightarrow> None
      | Some (xs, s1) \<Rightarrow>
          (case calls f n s1 of None \<Rightarrow> None | Some (ys, s2) \<Rightarrow> Some (xs @ ys, s2)))"
  by (induction m arbitrary: s) (auto split: option.splits prod.splits)

lemma calls_Suc_end:
  "calls f (Suc n) s =
     (case calls f n s of
        None \<Rightarrow> None
      | Some (xs, s1) \<Rightarrow>
          (case f s1 of None \<Rightarrow> None | Some (y, s2) \<Rightarrow> Some (xs @ [y], s2)))"
  using calls_add [of f n 1 s] by (auto split: option.splits prod.splits)

lemma fill_channel_calls:
  "i \<le> length ch \<Longrightarrow>
   fill_channel f i ch s =
     (case calls f (length ch - i) s of
        None \<Rightarrow> None
      | Some (xs, s1) \<Rightarrow> Some (take i ch @ xs, s1))"
proof (induction f i ch s rule: fill_channel.induct)
  case (1 f i ch s)
  show ?case
  proof (cases "i < length ch")
    case False
    with "1.prems" show ?thesis by (subst fill_channel.simps) simp
  next
    case True
    then have n: "length ch - i = Suc (length ch - Suc i)" by simp
    show ?thesis
    proof (cases "f s")
      case None
      with True show ?thesis by (subst fill_channel.simps) (simp add: n)
    next
      case (Some p)
      obtain x s1 where p: "p = (x, s1)" by (cases p)
      have "fill_channel f (Suc i) (ch[i := x]) s1 =
        (case calls f (length (ch[i := x]) - Suc i) s1 of
           None \<Rightarrow> None
         | Some (xs, s2) \<Rightarrow> Some (take (Suc i) (ch[i := x]) @ xs, s2))"
        using "1.IH" [OF True Some p [symmetric]] True by simp
      moreover have "take (Suc i) (ch[i := x]) = take i ch @ [x]"
        using True by (simp add: take_Suc_conv_app_nth)
      ultimately show ?thesis
        using True Some p
        by (subst fill_channel.simps) (simp add: n split: option.splits)
    qed
  qed
qed

lemma length_unconcat [simp]: "length (unconcat ns xs) = length ns"
  by (induction ns arbitrary: xs) simp_all

lemma concat_unconcat:
  "length xs = sum_list ns \<Longrightarrow> concat (unconcat ns xs) = xs"
  by (induction ns arbitrary: xs) simp_all

lemma map_length_unconcat:
  "length xs = sum_list ns \<Longrightarrow> map length (unconcat ns xs) = ns"
  by (induction ns arbitrary: xs) simp_all

lemma fill_channels_calls:
  "c \<le> length out \<Longrightarrow>
   fill_channels f c out s =
     (case calls f (sum_list (map length (drop c out))) s of
        None \<Rightarrow> None
      | Some (xs, s1) \<Rightarrow> Some (take c out @ unconcat (map length (drop c out)) xs, s1))"
proof (induction f c out s rule: fill_channels.induct)
  case (1 f c out s)
  show ?case
  proof (cases "c < length out")
    case False
    with "1.prems" show ?thesis by (subst fill_channels.simps) simp
  next
    case True
    let ?n = "length (out ! c)"
    let ?ns = "map length (drop (Suc c) out)"
    have d: "drop c out = out ! c # drop (Suc c) out"
      using True by (simp add: Cons_nth_drop_Suc)
    show ?thesis
    proof (cases "calls f ?n s")
      case None
      with True show ?thesis
        by (subst fill_channels.simps) (simp add: d fill_channel_calls calls_add)
    next
      case (Some p)
      obtain xs s1 where p: "p = (xs, s1)" by (cases p)
      have len: "length xs = ?n" using Some p by (simp add: calls_length)
      have fc: "fill_channel f 0 (out ! c) s = Some (xs, s1)"
        using Some p by (simp add: fill_channel_calls)
      have ih: "fill_channels f (Suc c) (out[c := xs]) s1 =
        (case calls f (sum_list ?ns) s1 of
           None \<Rightarrow> None
         | Some (ys, s2) \<Rightarrow> Some (take c out @ [xs] @ unconcat ?ns ys, s2))"
      proof -
        have t: "take (Suc c) (out[c := xs]) = take c out @ [xs]"
          using True by (simp add: take_Suc_conv_app_nth)
        have dr: "drop (Suc c) (out[c := xs]) = drop (Suc c) out"
          by simp
        from True have "Suc c \<le> length (out[c := xs])" by simp
        from "1.IH" [OF True fc refl this] show ?thesis
          unfolding t dr by (simp split: option.splits)
      qed
      show ?thesis
        using True fc Some p len
        by (subst fill_channels.simps) (simp add: ih d calls_add split: option.splits)
    qed
  qed
qed

subsection \<open>One sample\<close>

lemma white_advance:
  assumes "well_formed s"
  shows "white s = Some (buffer_of (activeBuffer s) s ! index s, advance s)"
proof -
  have len: "length (buffer_of (activeBuffer s) s) = bufferSize s"
    using assms by (rule well_formed_active)
  have "index s < length (buffer_of (activeBuffer s) s)"
    using assms unfolding len by (simp add: well_formed_def)
  from white_eq [OF this] show ?thesis
    unfolding len by (simp add: advance_def)
qed

lemma well_formed_advance: "well_formed s \<Longrightarrow> well_formed (advance s)"
  by (auto simp: well_formed_def advance_def)

lemma advance_frame [simp]:
  "bufferA (advance s) = bufferA s" "bufferB (advance s) = bufferB s"
  "bufferSize (advance s) = bufferSize s" "frameCount (advance s) = frameCount s"
  "rand (advance s) = rand s" "randPos (advance s) = randPos s"
  "noiseType (advance s) = noiseType s" "pinkRows (advance s) = pinkRows s"
  "pinkRunningSum (advance s) = pinkRunningSum s" "pinkIndex (advance s) = pinkIndex s"
  "pinkIndexMask (advance s) = pinkIndexMask s" "brownLast (advance s) = brownLast s"
  "blueLast (advance s) = blueLast s" "violetLast (advance s) = violetLast s"
  by (simp_all add: advance_def)

lemma pink_body_eq:
  assumes "length (pinkRows s) = 16"
  shows "pink_body w s =
    (let i = (pinkIndex s + 1) AND pinkIndexMask s; k = pink_zeros 0 i
     in if k < 16
        then Some ((pinkRunningSum s - pinkRows s ! k + w + w) / 17,
               s\<lparr>pinkRows := (pinkRows s)[k := fround w],
                 pinkRunningSum := pinkRunningSum s - pinkRows s ! k + w,
                 pinkIndex := i\<rparr>)
        else Some ((pinkRunningSum s + w) / 17, s\<lparr>pinkIndex := i\<rparr>))"
  using assms by (simp add: pink_body_def Let_def f32_get_def)

lemma pink_body_shape:
  assumes "length (pinkRows s) = 16"
  shows "\<exists>x i r rows. pink_body w s =
      Some (x, s\<lparr>pinkRows := rows, pinkRunningSum := r, pinkIndex := i\<rparr>) \<and>
    length rows = 16"
proof -
  define i where "i = (pinkIndex s + 1) AND pinkIndexMask s"
  define k where "k = pink_zeros 0 i"
  show ?thesis
  proof (cases "k < 16")
    case True
    have "pink_body w s = Some ((pinkRunningSum s - pinkRows s ! k + w + w) / 17,
               s\<lparr>pinkRows := (pinkRows s)[k := fround w],
                 pinkRunningSum := pinkRunningSum s - pinkRows s ! k + w,
                 pinkIndex := i\<rparr>)"
      using True by (simp add: pink_body_eq [OF assms] i_def k_def Let_def)
    moreover have "length ((pinkRows s)[k := fround w]) = 16" using assms by simp
    ultimately show ?thesis by blast
  next
    case False
    have "pink_body w s = Some ((pinkRunningSum s + w) / 17,
       s\<lparr>pinkRows := pinkRows s, pinkRunningSum := pinkRunningSum s, pinkIndex := i\<rparr>)"
      using False by (simp add: pink_body_eq [OF assms] i_def k_def Let_def)
    with assms show ?thesis by blast
  qed
qed


lemma pink_eq:
  "well_formed s \<Longrightarrow> pink s = pink_body (buffer_of (activeBuffer s) s ! index s) (advance s)"
  and brown_eq:
  "well_formed s \<Longrightarrow>
   brown s = Some (brown_body (buffer_of (activeBuffer s) s ! index s) (advance s))"
  and blue_eq:
  "well_formed s \<Longrightarrow>
   blue s = Some (blue_body (buffer_of (activeBuffer s) s ! index s) (advance s))"
  and violet_eq:
  "well_formed s \<Longrightarrow>
   violet s = Some (violet_body (buffer_of (activeBuffer s) s ! index s) (advance s))"
  by (simp_all add: pink_def brown_def blue_def violet_def white_advance)

lemma index_advance:
  "well_formed s \<Longrightarrow> index (advance s) = Suc (index s) mod bufferSize s"
proof (cases "bufferSize s \<le> Suc (index s)")
  case True
  assume "well_formed s"
  with True have "Suc (index s) = bufferSize s" by (simp add: well_formed_def)
  with True show ?thesis by (simp add: advance_def)
next
  case False
  then show ?thesis by (simp add: advance_def)
qed

lemma brown_body_eq:
  "brown_body w s =
     ((brownLast s + 0.02 * w) / 1.02 * 3.5, s\<lparr>brownLast := (brownLast s + 0.02 * w) / 1.02\<rparr>)"
  by (simp add: brown_body_def Let_def)

lemma blue_body_eq: "blue_body w s = ((w - blueLast s) * 0.7, s\<lparr>blueLast := w\<rparr>)"
  by (simp add: blue_body_def Let_def)

lemma violet_body_eq:
  "violet_body w s =
     ((w - fst (violetLast s) - snd (violetLast s)) * 0.5,
      s\<lparr>violetLast := (w, w - fst (violetLast s))\<rparr>)"
  by (simp add: violet_body_def Let_def)

lemma well_formed_regs [simp]:
  "well_formed (s\<lparr>brownLast := b\<rparr>) = well_formed s"
  "well_formed (s\<lparr>blueLast := c\<rparr>) = well_formed s"
  "well_formed (s\<lparr>violetLast := v\<rparr>) = well_formed s"
  "well_formed (s\<lparr>pinkRunningSum := r\<rparr>) = well_formed s"
  "well_formed (s\<lparr>pinkIndex := i\<rparr>) = well_formed s"
  "well_formed (s\<lparr>frameCount := k\<rparr>) = well_formed s"
  "well_formed (s\<lparr>fillPointer := p\<rparr>) = well_formed s"
  "well_formed (s\<lparr>randPos := q\<rparr>) = well_formed s"
  "well_formed (s\<lparr>noiseType := t\<rparr>) = well_formed s"
  by (simp_all add: well_formed_def)

lemma pink_Some:
  assumes "well_formed s"
  shows "\<exists>x s1. pink s = Some (x, s1) \<and> well_formed s1 \<and> after_read s s1"
proof -
  from assms have "length (pinkRows (advance s)) = 16" by (simp add: well_formed_def)
  from pink_body_shape [OF this, of "buffer_of (activeBuffer s) s ! index s"]
  obtain x i r rows where
    "pink_body (buffer_of (activeBuffer s) s ! index s) (advance s) =
      Some (x, (advance s)\<lparr>pinkRows := rows, pinkRunningSum := r, pinkIndex := i\<rparr>)"
    "length rows = 16" by blast
  moreover from this well_formed_advance [OF assms]
  have "well_formed ((advance s)\<lparr>pinkRows := rows, pinkRunningSum := r, pinkIndex := i\<rparr>)"
    by (simp add: well_formed_def)
  ultimately show ?thesis using assms by (simp add: pink_eq after_read_def)
qed

lemma ex_pairI: "f = Some p \<Longrightarrow> P (snd p) \<Longrightarrow> \<exists>x s1. f = Some (x, s1) \<and> P s1"
  by (cases p) auto

lemma brown_Some:
  "well_formed s \<Longrightarrow>
   \<exists>x s1. brown s = Some (x, s1) \<and> well_formed s1 \<and> after_read s s1"
  by (rule ex_pairI [OF brown_eq]) (simp_all add: brown_body_eq well_formed_advance after_read_def)

lemma blue_Some:
  "well_formed s \<Longrightarrow>
   \<exists>x s1. blue s = Some (x, s1) \<and> well_formed s1 \<and> after_read s s1"
  by (rule ex_pairI [OF blue_eq]) (simp_all add: blue_body_eq well_formed_advance after_read_def)

lemma violet_Some:
  "well_formed s \<Longrightarrow>
   \<exists>x s1. violet s = Some (x, s1) \<and> well_formed s1 \<and> after_read s s1"
  by (rule ex_pairI [OF violet_eq]) (simp_all add: violet_body_eq well_formed_advance after_read_def)

lemma white_Some:
  "well_formed s \<Longrightarrow>
   \<exists>x s1. white s = Some (x, s1) \<and> well_formed s1 \<and> after_read s s1"
  by (simp add: white_advance well_formed_advance after_read_def)

lemma getSample_Some:
  "well_formed s \<Longrightarrow>
   \<exists>x s1. getSample s = Some (x, s1) \<and> well_formed s1 \<and> after_read s s1"
  by (simp add: getSample_def pink_Some brown_Some blue_Some violet_Some white_Some)

lemma calls_total:
  assumes step: "\<And>s. P s \<Longrightarrow> \<exists>x s1. f s = Some (x, s1) \<and> P s1 \<and> Q x"
    and "P s"
  shows "\<exists>xs s1. calls f n s = Some (xs, s1) \<and> P s1 \<and> list_all Q xs"
  using \<open>P s\<close>
proof (induction n arbitrary: s)
  case 0
  then show ?case by simp
next
  case (Suc n)
  from step [OF Suc.prems] obtain x s1 where 1: "f s = Some (x, s1)" "P s1" "Q x" by blast
  from Suc.IH [OF 1(2)] obtain xs s2 where "calls f n s1 = Some (xs, s2)" "P s2" "list_all Q xs"
    by blast
  with 1 show ?case by simp
qed

lemma pink_plain_Some:
  assumes "length (pinkRows g) = 16"
  shows "\<exists>x g1. pink_plain g = Some (x, g1) \<and> length (pinkRows g1) = 16 \<and>
     randPos g1 = Suc (randPos g)"
proof -
  let ?g = "g\<lparr>randPos := Suc (randPos g)\<rparr>"
  from assms have "length (pinkRows ?g) = 16" by simp
  from pink_body_shape [OF this, of "rand g (randPos g) * 2 - 1"]
  obtain x i r rows where
    "pink_body (rand g (randPos g) * 2 - 1) ?g =
      Some (x, ?g\<lparr>pinkRows := rows, pinkRunningSum := r, pinkIndex := i\<rparr>)"
    "length rows = 16" by blast
  then show ?thesis by (simp add: pink_plain_def white_plain_def random_def)
qed

lemma white_plain_eq:
  "white_plain g = Some (rand g (randPos g) * 2 - 1, g\<lparr>randPos := Suc (randPos g)\<rparr>)"
  by (simp add: white_plain_def random_def)

lemma brown_plain_eq:
  "brown_plain g =
     Some (brown_body (rand g (randPos g) * 2 - 1) (g\<lparr>randPos := Suc (randPos g)\<rparr>))"
  and blue_plain_eq:
  "blue_plain g =
     Some (blue_body (rand g (randPos g) * 2 - 1) (g\<lparr>randPos := Suc (randPos g)\<rparr>))"
  and violet_plain_eq:
  "violet_plain g =
     Some (violet_body (rand g (randPos g) * 2 - 1) (g\<lparr>randPos := Suc (randPos g)\<rparr>))"
  and pink_plain_eq:
  "pink_plain g = pink_body (rand g (randPos g) * 2 - 1) (g\<lparr>randPos := Suc (randPos g)\<rparr>)"
  by (simp_all add: brown_plain_def blue_plain_def violet_plain_def pink_plain_def
      white_plain_eq)

lemma plain_Some:
  "\<exists>x g1. white_plain g = Some (x, g1) \<and> length (pinkRows g1) = length (pinkRows g) \<and>
     randPos g1 = Suc (randPos g)"
  "\<exists>x g1. brown_plain g = Some (x, g1) \<and> length (pinkRows g1) = length (pinkRows g) \<and>
     randPos g1 = Suc (randPos g)"
  "\<exists>x g1. blue_plain g = Some (x, g1) \<and> length (pinkRows g1) = length (pinkRows g) \<and>
     randPos g1 = Suc (randPos g)"
  "\<exists>x g1. violet_plain g = Some (x, g1) \<and> length (pinkRows g1) = length (pinkRows g) \<and>
     randPos g1 = Suc (randPos g)"
     apply (rule ex_pairI [OF white_plain_eq], simp)
    apply (rule ex_pairI [OF brown_plain_eq], simp add: brown_body_eq)
   apply (rule ex_pairI [OF blue_plain_eq], simp add: blue_body_eq)
  apply (rule ex_pairI [OF violet_plain_eq], simp add: violet_body_eq)
  done

lemma getSample_plain_Some:
  "length (pinkRows g) = 16 \<Longrightarrow>
   \<exists>x g1. getSample_plain g = Some (x, g1) \<and> length (pinkRows g1) = 16 \<and>
     randPos g1 = Suc (randPos g)"
  using plain_Some [of g] by (simp add: getSample_plain_def pink_plain_Some)

subsection \<open>Draining the active buffer\<close>

lemma buffer_of_index [simp]: "buffer_of b (s\<lparr>index := i\<rparr>) = buffer_of b s"
  by (cases b) simp_all

lemma calls_white_inside:
  "well_formed s \<Longrightarrow> index s + n < bufferSize s \<Longrightarrow>
   calls white n s =
     Some (take n (drop (index s) (buffer_of (activeBuffer s) s)), s\<lparr>index := index s + n\<rparr>)"
proof (induction n arbitrary: s)
  case 0
  then show ?case by simp
next
  case (Suc n)
  let ?s = "s\<lparr>index := Suc (index s)\<rparr>"
  have a: "advance s = ?s" using Suc.prems(2) by (simp add: advance_def)
  have wf: "well_formed ?s" using Suc.prems by (simp add: well_formed_def)
  have "index s < length (buffer_of (activeBuffer s) s)"
    using Suc.prems by (simp add: well_formed_active)
  then have t: "take (Suc n) (drop (index s) (buffer_of (activeBuffer s) s)) =
     buffer_of (activeBuffer s) s ! index s #
     take n (drop (Suc (index s)) (buffer_of (activeBuffer s) s))"
    by (simp add: Cons_nth_drop_Suc [symmetric])
  from Suc.IH [OF wf] Suc.prems(2)
  have "calls white n ?s =
     Some (take n (drop (Suc (index s)) (buffer_of (activeBuffer s) s)),
           s\<lparr>index := index s + Suc n\<rparr>)"
    by simp
  then show ?case
    using Suc.prems(1) by (simp add: white_advance a t)
qed

lemma take_nth_all: "length ys = Suc m \<Longrightarrow> take m ys @ [ys ! m] = ys"
  by (simp add: take_Suc_conv_app_nth [symmetric])

lemma calls_white_to_end:
  assumes "well_formed s" and "index s + n = bufferSize s" and "0 < n"
  shows "calls white n s =
     Some (drop (index s) (buffer_of (activeBuffer s) s),
       s\<lparr>index := 0, activeBuffer := inactiveBuffer s, inactiveBuffer := activeBuffer s,
         fillPointer := 0\<rparr>)"
proof -
  from assms(3) obtain m where n: "n = Suc m" by (cases n) auto
  let ?s = "s\<lparr>index := index s + m\<rparr>"
  let ?buf = "buffer_of (activeBuffer s) s"
  have len: "length ?buf = bufferSize s" using assms(1) by (rule well_formed_active)
  have 1: "calls white m s = Some (take m (drop (index s) ?buf), ?s)"
    using assms n by (intro calls_white_inside) simp_all
  have wf: "well_formed ?s" using assms n by (simp add: well_formed_def)
  have 2: "white ?s = Some (?buf ! (index s + m),
       s\<lparr>index := 0, activeBuffer := inactiveBuffer s, inactiveBuffer := activeBuffer s,
         fillPointer := 0\<rparr>)"
    using assms(2) n by (simp add: white_advance [OF wf] advance_def)
  have "take m (drop (index s) ?buf) @ [?buf ! (index s + m)] = drop (index s) ?buf"
  proof -
    have l: "length (drop (index s) ?buf) = Suc m" using assms(2) n len by simp
    have "drop (index s) ?buf ! m = ?buf ! (index s + m)"
      using assms(2) n len by simp
    with take_nth_all [OF l] show ?thesis by simp
  qed
  with 1 2 show ?thesis by (simp add: n calls_Suc_end del: calls.simps)
qed

text \<open>
  C3. From a freshly constructed processor, the first \<open>k < 1440000\<close> calls of \<^verbatim>\<open>white()\<close>
  return the first \<open>k\<close> elements of buffer A and leave the cursor at \<open>k\<close>. The call number
  1440000 returns the last element and exchanges the buffers: B is active, A inactive,
  cursor and refill marker are 0. The next call returns element 0 of B, the buffer that
  was inactive, and leaves the cursor at 1. That element is the stream value number
  1440000, as the buffer keeps it.
\<close>

theorem buffer_swap:
  assumes "k < 1440000"
  shows "calls white k (constructor rnd) =
       Some (take k (bufferA (constructor rnd)), (constructor rnd)\<lparr>index := k\<rparr>) \<and>
     calls white 1440000 (constructor rnd) =
       Some (bufferA (constructor rnd),
         (constructor rnd)\<lparr>index := 0, activeBuffer := BufB, inactiveBuffer := BufA,
           fillPointer := 0\<rparr>) \<and>
     calls white 1440001 (constructor rnd) =
       Some (bufferA (constructor rnd) @ [bufferB (constructor rnd) ! 0],
         (constructor rnd)\<lparr>index := 1, activeBuffer := BufB, inactiveBuffer := BufA,
           fillPointer := 0\<rparr>) \<and>
     bufferB (constructor rnd) ! 0 = fround (rnd 1440000 * 2 - 1)"
proof -
  let ?c = "constructor rnd"
  let ?d = "?c\<lparr>index := 0, activeBuffer := BufB, inactiveBuffer := BufA, fillPointer := 0\<rparr>"
  have wf: "well_formed ?c" by (rule well_formed_constructor)
  have f: "index ?c = 0" "bufferSize ?c = 1440000" "activeBuffer ?c = BufA"
    "inactiveBuffer ?c = BufB" "length (bufferA ?c) = 1440000"
    by (simp_all add: constructor_eq)
  have 1: "calls white k ?c = Some (take k (bufferA ?c), ?c\<lparr>index := k\<rparr>)"
    using calls_white_inside [OF wf, of k] assms by (simp add: f)
  have 2: "calls white 1440000 ?c = Some (bufferA ?c, ?d)"
    using calls_white_to_end [OF wf, of 1440000] by (simp add: f)
  have wfd: "well_formed ?d" using wf by (simp add: well_formed_def f)
  have w: "white ?d = Some (bufferB ?c ! 0, ?c\<lparr>index := 1, activeBuffer := BufB,
      inactiveBuffer := BufA, fillPointer := 0\<rparr>)"
    by (simp add: white_advance [OF wfd] advance_def f)
  have 3: "calls white 1440001 ?c =
      Some (bufferA ?c @ [bufferB ?c ! 0],
        ?c\<lparr>index := 1, activeBuffer := BufB, inactiveBuffer := BufA, fillPointer := 0\<rparr>)"
    using calls_Suc_end [of white 1440000 ?c] 2 w by simp
  have 4: "bufferB ?c ! 0 = fround (rnd 1440000 * 2 - 1)" by (simp add: constructor_eq)
  from 1 2 3 4 show ?thesis by simp
qed

theorem buffer_swap_witness:
  "(2::nat) < 1440000 \<and>
   calls white 2 (constructor half) =
     Some (take 2 (bufferA (constructor half)), (constructor half)\<lparr>index := 2\<rparr>)"
  using buffer_swap [of 2 half] by simp

subsection \<open>Reads of the uniform source\<close>

lemma after_read_index:
  "well_formed s \<Longrightarrow> after_read s s1 \<Longrightarrow>
   index s1 = Suc (index s) mod bufferSize s \<and> randPos s1 = randPos s"
  by (simp add: after_read_def index_advance)

text \<open>
  C2 (as the code has it). Each of \<^verbatim>\<open>white\<close>, \<^verbatim>\<open>pink\<close>, \<^verbatim>\<open>brown\<close>, \<^verbatim>\<open>blue\<close>, \<^verbatim>\<open>violet\<close>
  returns a sample and takes exactly one value from the uniform source: in
  noise-processor.js the read cursor goes one step forward (back to 0 at the end of the
  buffer) and \<^verbatim>\<open>Math.random()\<close> is not called; in the processor without buffers
  \<^verbatim>\<open>Math.random()\<close> is called once. \<^verbatim>\<open>pink\<close> is no exception: its body gets the one value
  of its single \<^verbatim>\<open>white()\<close> call and uses it for the row and for the added term.
\<close>

theorem one_draw_per_sample:
  fixes s :: processor and g :: gen
  assumes "well_formed s" and "length (pinkRows g) = 16"
    and "f \<in> {white, pink, brown, blue, violet}"
    and "h \<in> {white_plain, pink_plain, brown_plain, blue_plain, violet_plain}"
  shows "(\<exists>x s1. f s = Some (x, s1) \<and> index s1 = Suc (index s) mod bufferSize s \<and>
            randPos s1 = randPos s) \<and>
         (\<exists>x g1. h g = Some (x, g1) \<and> randPos g1 = Suc (randPos g)) \<and>
         pink s = pink_body (buffer_of (activeBuffer s) s ! index s) (advance s) \<and>
         pink_plain g =
           pink_body (rand g (randPos g) * 2 - 1) (g\<lparr>randPos := Suc (randPos g)\<rparr>)"
proof -
  have "\<exists>x s1. f s = Some (x, s1) \<and> well_formed s1 \<and> after_read s s1"
    using assms(3) white_Some [OF assms(1)] pink_Some [OF assms(1)] brown_Some [OF assms(1)]
      blue_Some [OF assms(1)] violet_Some [OF assms(1)]
    by (elim insertE emptyE; blast)
  then have 1: "\<exists>x s1. f s = Some (x, s1) \<and> index s1 = Suc (index s) mod bufferSize s \<and>
            randPos s1 = randPos s"
    using after_read_index [OF assms(1)] by blast
  have 2: "\<exists>x g1. h g = Some (x, g1) \<and> randPos g1 = Suc (randPos g)"
    using assms(4) plain_Some [of g] pink_plain_Some [OF assms(2)]
    by (elim insertE emptyE; blast)
  from 1 2 pink_eq [OF assms(1)] pink_plain_eq [of g] show ?thesis by simp
qed

theorem one_draw_per_sample_witness:
  "well_formed (constructor half) \<and> length (pinkRows (constructor_plain half)) = 16 \<and>
   pink \<in> {white, pink, brown, blue, violet} \<and>
   pink_plain \<in> {white_plain, pink_plain, brown_plain, blue_plain, violet_plain} \<and>
   (\<exists>x s1. pink (constructor half) = Some (x, s1) \<and>
      index s1 = Suc (index (constructor half)) mod bufferSize (constructor half) \<and>
      randPos s1 = randPos (constructor half)) \<and>
   (\<exists>x g1. pink_plain (constructor_plain half) = Some (x, g1) \<and>
      randPos g1 = Suc (randPos (constructor_plain half)))"
proof -
  have 1: "well_formed (constructor half)" by (rule well_formed_constructor)
  have 2: "length (pinkRows (constructor_plain half)) = 16"
    by (simp add: constructor_plain_def)
  have 3: "pink \<in> {white, pink, brown, blue, violet}" by simp
  have 4: "pink_plain \<in> {white_plain, pink_plain, brown_plain, blue_plain, violet_plain}"
    by simp
  from one_draw_per_sample [OF 1 2 3 4] 1 2 3 4 show ?thesis by blast
qed

text \<open>
  At a fresh processor the cursor is 0 and one \<^verbatim>\<open>pink()\<close> leaves it at 1, not 2; without
  buffers one \<^verbatim>\<open>pink()\<close> has drawn one value from \<^verbatim>\<open>Math.random()\<close>, not two.
\<close>

lemma pink_zeros_odd: "pink_zeros 0 1 = 0"
  by (subst pink_zeros.simps) simp

theorem pink_draws_once:
  "index (constructor half) = 0 \<and>
   map_option (index \<circ> snd) (pink (constructor half)) = Some 1 \<and>
   randPos (constructor_plain half) = 0 \<and>
   map_option (randPos \<circ> snd) (pink_plain (constructor_plain half)) = Some 1"
proof -
  have "index (constructor half) = 0" "randPos (constructor_plain half) = 0"
    by (simp_all add: constructor_eq constructor_plain_def)
  moreover have "map_option (index \<circ> snd) (pink (constructor half)) = Some 1"
    unfolding pink_eq [OF well_formed_constructor]
    by (simp add: advance_def constructor_eq pink_body_eq pink_zeros_odd)
  moreover have "map_option (randPos \<circ> snd) (pink_plain (constructor_plain half)) = Some 1"
    by (simp add: pink_plain_eq constructor_plain_def pink_body_eq pink_zeros_odd)
  ultimately show ?thesis by simp
qed

subsection \<open>The kind of noise\<close>

lemma white_noiseType: "white s = Some (x, s1) \<Longrightarrow> noiseType s1 = noiseType s"
  by (auto simp: white_def Let_def split: option.splits if_splits)

lemma white_plain_noiseType: "white_plain s = Some (x, s1) \<Longrightarrow> noiseType s1 = noiseType s"
  by (auto simp: white_plain_def random_def)

lemma getSample_fallback:
  "noiseType s \<notin> {''pink'', ''brown'', ''blue'', ''violet''} \<Longrightarrow> getSample s = white s"
  by (simp add: getSample_def)

lemma calls_fallback:
  "noiseType s \<notin> {''pink'', ''brown'', ''blue'', ''violet''} \<Longrightarrow>
   calls getSample n s = calls white n s"
proof (induction n arbitrary: s)
  case 0
  then show ?case by simp
next
  case (Suc n)
  show ?case
  proof (cases "white s")
    case None
    with Suc.prems show ?thesis by (simp add: getSample_fallback)
  next
    case (Some p)
    obtain x s1 where p: "p = (x, s1)" by (cases p)
    from Some p have "noiseType s1 = noiseType s" by (simp add: white_noiseType)
    with Suc.prems have "calls getSample n s1 = calls white n s1"
      by (intro Suc.IH) simp
    with Some p Suc.prems show ?thesis by (simp add: getSample_fallback)
  qed
qed

lemma well_formed_onmessage [simp]: "well_formed (onmessage m s) = well_formed s"
  by (simp add: onmessage_def well_formed_def)

lemma calls_white_Some:
  "well_formed s \<Longrightarrow> \<exists>xs s1. calls white n s = Some (xs, s1) \<and> well_formed s1"
proof (induction n arbitrary: s)
  case 0
  then show ?case by simp
next
  case (Suc n)
  from white_well_formed [OF Suc.prems]
  obtain x s1 where w: "white s = Some (x, s1)" "well_formed s1" by blast
  from Suc.IH [OF w(2)]
  obtain xs s2 where "calls white n s1 = Some (xs, s2)" "well_formed s2" by blast
  with w show ?case by simp
qed

lemma getSample_plain_fallback:
  "noiseType s \<notin> {''pink'', ''brown'', ''blue'', ''violet''} \<Longrightarrow>
   getSample_plain s = white_plain s"
  by (simp add: getSample_plain_def)

lemma calls_plain_fallback:
  "noiseType s \<notin> {''pink'', ''brown'', ''blue'', ''violet''} \<Longrightarrow>
   calls getSample_plain n s = calls white_plain n s"
proof (induction n arbitrary: s)
  case 0
  then show ?case by simp
next
  case (Suc n)
  obtain x s1 where w: "white_plain s = Some (x, s1)"
    by (simp add: white_plain_def random_def)
  then have "noiseType s1 = noiseType s" by (rule white_plain_noiseType)
  with Suc.prems have "calls getSample_plain n s1 = calls white_plain n s1"
    by (intro Suc.IH) simp
  with w Suc.prems show ?case by (simp add: getSample_plain_fallback)
qed

lemma calls_white_plain_Some: "\<exists>xs s1. calls white_plain n s = Some (xs, s1)"
proof (induction n arbitrary: s)
  case 0
  show ?case by simp
next
  case (Suc n)
  obtain x s1 where w: "white_plain s = Some (x, s1)"
    by (simp add: white_plain_def random_def)
  from Suc.IH [of s1] obtain xs s2 where "calls white_plain n s1 = Some (xs, s2)" by blast
  with w show ?case by simp
qed

text \<open>
  C8. A \<^verbatim>\<open>setNoiseType\<close> message with a string that is none of the five kinds does not
  stop the engine: the handler stores the string, and from then on every \<^verbatim>\<open>getSample()\<close>
  is a \<^verbatim>\<open>white()\<close>, which returns a sample each time. This holds in both files.
\<close>

theorem unknown_kind_is_white:
  fixes s :: processor and g :: gen
  assumes "t \<notin> {''white'', ''pink'', ''brown'', ''blue'', ''violet''}"
    and "well_formed s"
  shows "calls getSample n (onmessage \<lparr>msg_type = ''setNoiseType'', msg_noiseType = t\<rparr> s) =
         calls white n (onmessage \<lparr>msg_type = ''setNoiseType'', msg_noiseType = t\<rparr> s) \<and>
     (\<exists>xs s1. calls white n
           (onmessage \<lparr>msg_type = ''setNoiseType'', msg_noiseType = t\<rparr> s) = Some (xs, s1)) \<and>
     calls getSample_plain n
           (onmessage \<lparr>msg_type = ''setNoiseType'', msg_noiseType = t\<rparr> g) =
         calls white_plain n (onmessage \<lparr>msg_type = ''setNoiseType'', msg_noiseType = t\<rparr> g) \<and>
     (\<exists>xs g1. calls white_plain n
           (onmessage \<lparr>msg_type = ''setNoiseType'', msg_noiseType = t\<rparr> g) = Some (xs, g1))"
proof -
  let ?m = "\<lparr>msg_type = ''setNoiseType'', msg_noiseType = t\<rparr>"
  have "noiseType (onmessage ?m s) = t" "noiseType (onmessage ?m g) = t"
    by (simp_all add: onmessage_def)
  with assms(1) have "calls getSample n (onmessage ?m s) = calls white n (onmessage ?m s)"
    and "calls getSample_plain n (onmessage ?m g) = calls white_plain n (onmessage ?m g)"
    by (simp_all add: calls_fallback calls_plain_fallback)
  moreover from assms(2) have "well_formed (onmessage ?m s)" by simp
  from calls_white_Some [OF this]
  have "\<exists>xs s1. calls white n (onmessage ?m s) = Some (xs, s1)" by blast
  moreover have "\<exists>xs g1. calls white_plain n (onmessage ?m g) = Some (xs, g1)"
    by (rule calls_white_plain_Some)
  ultimately show ?thesis by blast
qed

theorem unknown_kind_is_white_witness:
  "''purple'' \<notin> {''white'', ''pink'', ''brown'', ''blue'', ''violet''} \<and>
   well_formed (constructor half) \<and>
   calls getSample 3
     (onmessage \<lparr>msg_type = ''setNoiseType'', msg_noiseType = ''purple''\<rparr> (constructor half)) =
   calls white 3
     (onmessage \<lparr>msg_type = ''setNoiseType'', msg_noiseType = ''purple''\<rparr> (constructor half))"
  using unknown_kind_is_white [of "''purple''" "constructor half" 3]
    well_formed_constructor [of half]
  by simp

text \<open>
  C10. The message handler assigns \<open>noiseType\<close> and nothing else: the rows, the running sum,
  the counter, the registers of brown, blue and violet, both buffers, the two references,
  the read cursor and the refill marker are as before, in both files. So a message that
  sets the former kind again gives back the state before the first message.
\<close>

theorem onmessage_frame:
  fixes s :: processor and g :: gen
  shows "pinkRows (onmessage m s) = pinkRows s \<and>
     pinkRunningSum (onmessage m s) = pinkRunningSum s \<and>
     pinkIndex (onmessage m s) = pinkIndex s \<and>
     brownLast (onmessage m s) = brownLast s \<and>
     blueLast (onmessage m s) = blueLast s \<and>
     violetLast (onmessage m s) = violetLast s \<and>
     bufferA (onmessage m s) = bufferA s \<and>
     bufferB (onmessage m s) = bufferB s \<and>
     activeBuffer (onmessage m s) = activeBuffer s \<and>
     inactiveBuffer (onmessage m s) = inactiveBuffer s \<and>
     index (onmessage m s) = index s \<and>
     fillPointer (onmessage m s) = fillPointer s \<and>
     pinkRows (onmessage m g) = pinkRows g \<and>
     pinkRunningSum (onmessage m g) = pinkRunningSum g \<and>
     pinkIndex (onmessage m g) = pinkIndex g \<and>
     brownLast (onmessage m g) = brownLast g \<and>
     blueLast (onmessage m g) = blueLast g \<and>
     violetLast (onmessage m g) = violetLast g \<and>
     onmessage \<lparr>msg_type = ''setNoiseType'', msg_noiseType = noiseType s\<rparr>
       (onmessage \<lparr>msg_type = ''setNoiseType'', msg_noiseType = t\<rparr> s) = s \<and>
     onmessage \<lparr>msg_type = ''setNoiseType'', msg_noiseType = noiseType g\<rparr>
       (onmessage \<lparr>msg_type = ''setNoiseType'', msg_noiseType = t\<rparr> g) = g"
  by (simp add: onmessage_def)

subsection \<open>A block\<close>

lemma calls_getSample_Some:
  "well_formed s \<Longrightarrow> \<exists>xs s1. calls getSample n s = Some (xs, s1) \<and> well_formed s1"
  using calls_total [where P = well_formed and f = getSample and Q = "\<lambda>x. True" and s = s and n = n]
    getSample_Some by blast

lemma calls_getSample_plain_Some:
  "length (pinkRows g) = 16 \<Longrightarrow>
   \<exists>xs g1. calls getSample_plain n g = Some (xs, g1) \<and> length (pinkRows g1) = 16"
  using calls_total [where P = "\<lambda>g. length (pinkRows g) = 16" and f = getSample_plain
      and Q = "\<lambda>x. True" and s = g and n = n]
    getSample_plain_Some by blast

lemma process_calls:
  "calls getSample (length (concat out)) s = Some (xs, s1) \<Longrightarrow>
   process (out # rest) s = Some (unconcat (map length out) xs # rest, refill s1)"
  by (simp add: process_def fill_channels_calls length_concat)

lemma process_plain_calls:
  "calls getSample_plain (length (concat out)) g = Some (xs, g1) \<Longrightarrow>
   process_plain (out # rest) g = Some (unconcat (map length out) xs # rest, g1)"
  by (simp add: process_plain_def fill_channels_calls length_concat)

text \<open>
  C1 (as the code has it). \<^verbatim>\<open>process\<close> calls \<^verbatim>\<open>getSample()\<close> once for every slot of every
  channel: the channels, read one after the other, hold the consecutive results of as many
  \<^verbatim>\<open>getSample()\<close> calls as the block has slots, and every channel keeps its length. A later
  channel therefore holds later samples, not a copy of channel 0. Both files do so;
  noise-processor.js then does its refill.
\<close>

theorem process_fills_in_order:
  fixes s :: processor and g :: gen
  assumes "well_formed s" and "length (pinkRows g) = 16"
  shows "(\<exists>xs s1. calls getSample (length (concat out)) s = Some (xs, s1) \<and>
            process (out # rest) s = Some (unconcat (map length out) xs # rest, refill s1) \<and>
            concat (unconcat (map length out) xs) = xs \<and>
            map length (unconcat (map length out) xs) = map length out) \<and>
         (\<exists>xs g1. calls getSample_plain (length (concat out)) g = Some (xs, g1) \<and>
            process_plain (out # rest) g = Some (unconcat (map length out) xs # rest, g1) \<and>
            concat (unconcat (map length out) xs) = xs \<and>
            map length (unconcat (map length out) xs) = map length out)"
proof -
  from calls_getSample_Some [OF assms(1)]
  obtain xs s1 where 1: "calls getSample (length (concat out)) s = Some (xs, s1)" by blast
  then have "length xs = sum_list (map length out)"
    by (simp add: calls_length length_concat)
  with 1 have a: "\<exists>xs s1. calls getSample (length (concat out)) s = Some (xs, s1) \<and>
            process (out # rest) s = Some (unconcat (map length out) xs # rest, refill s1) \<and>
            concat (unconcat (map length out) xs) = xs \<and>
            map length (unconcat (map length out) xs) = map length out"
    by (simp add: process_calls concat_unconcat map_length_unconcat)
  from calls_getSample_plain_Some [OF assms(2)]
  obtain ys g1 where 2: "calls getSample_plain (length (concat out)) g = Some (ys, g1)"
    by blast
  then have "length ys = sum_list (map length out)"
    by (simp add: calls_length length_concat)
  with 2 have "\<exists>xs g1. calls getSample_plain (length (concat out)) g = Some (xs, g1) \<and>
            process_plain (out # rest) g = Some (unconcat (map length out) xs # rest, g1) \<and>
            concat (unconcat (map length out) xs) = xs \<and>
            map length (unconcat (map length out) xs) = map length out"
    by (simp add: process_plain_calls concat_unconcat map_length_unconcat)
  with a show ?thesis by blast
qed

theorem process_fills_in_order_witness:
  "well_formed (constructor half) \<and> length (pinkRows (constructor_plain half)) = 16 \<and>
   (\<exists>xs s1. calls getSample (length (concat [[0, 0], [0, 0::real]])) (constructor half) =
        Some (xs, s1) \<and>
      process [[[0, 0], [0, 0]]] (constructor half) =
        Some ([unconcat (map length [[0, 0], [0, 0::real]]) xs], refill s1))"
proof -
  have 1: "well_formed (constructor half)" by (rule well_formed_constructor)
  have 2: "length (pinkRows (constructor_plain half)) = 16"
    by (simp add: constructor_plain_def)
  from process_fills_in_order [OF 1 2, of "[[0, 0], [0, 0]]" "[]"] 1 2 show ?thesis by blast
qed

text \<open>
  A block of two channels with one slot each, at a fresh processor whose uniform stream
  alternates between 15/16 and 1/16: channel 0 gets 7/8 and channel 1 gets -7/8.
\<close>

lemma take_fresh: "k \<le> n \<Longrightarrow> take k (fresh rnd p n) = fresh rnd p k"
  by (rule nth_equalityI) simp_all

lemma fresh_2: "fresh rnd p 2 = [fround (rnd p * 2 - 1), fround (rnd (Suc p) * 2 - 1)]"
  by (simp add: numeral_2_eq_2 fresh_Suc)

theorem channels_differ:
  "map_option fst (process [[[0], [0]]] (constructor alternating)) =
     Some [[[7 / 8], [- 7 / 8]]] \<and>
   map_option fst (process_plain [[[0], [0]]] (constructor_plain alternating)) =
     Some [[[7 / 8], [- 7 / 8]]]"
proof -
  let ?c = "constructor alternating"
  have wf: "well_formed ?c" by (rule well_formed_constructor)
  have len: "length (concat [[0::real], [0]]) = 2" by simp
  have "calls white 2 ?c =
     Some (take 2 (drop (index ?c) (buffer_of (activeBuffer ?c) ?c)), ?c\<lparr>index := index ?c + 2\<rparr>)"
    by (rule calls_white_inside [OF wf]) (simp add: constructor_eq)
  also have "take 2 (drop (index ?c) (buffer_of (activeBuffer ?c) ?c)) = [7 / 8, - 7 / 8]"
    by (simp add: constructor_eq take_fresh fresh_2 alternating_def fround_7_8 fround_m7_8)
  finally have "calls getSample 2 ?c = Some ([7 / 8, - 7 / 8], ?c\<lparr>index := index ?c + 2\<rparr>)"
    using calls_fallback [of ?c 2] by (simp add: constructor_eq)
  from process_calls [of "[[0], [0]]", unfolded len, OF this, of "[]"]
  have 1: "map_option fst (process [[[0], [0]]] ?c) = Some [[[7 / 8], [- 7 / 8]]]"
    by simp
  let ?g = "constructor_plain alternating"
  have "calls getSample_plain 2 ?g = Some ([7 / 8, - 7 / 8], ?g\<lparr>randPos := 2\<rparr>)"
    by (simp add: numeral_2_eq_2 getSample_plain_def constructor_plain_def white_plain_eq
        alternating_def)
  from process_plain_calls [of "[[0], [0]]", unfolded len, OF this, of "[]"]
  have "map_option fst (process_plain [[[0], [0]]] ?g) = Some [[[7 / 8], [- 7 / 8]]]"
    by simp
  with 1 show ?thesis by simp
qed

subsection \<open>The running sum of pink\<close>

lemma sum_list_store:
  fixes xs :: "real list"
  shows "k < length xs \<Longrightarrow> sum_list (xs[k := x]) = sum_list xs - xs ! k + x"
proof (induction xs arbitrary: k)
  case Nil
  then show ?case by simp
next
  case (Cons y ys)
  then show ?case by (cases k) simp_all
qed

text \<open>
  One \<^verbatim>\<open>pink\<close> body either leaves the rows alone or replaces one row: then the running sum
  moves away from the sum of the rows by what the rounding of the row took off.
\<close>

lemma pink_body_drift:
  assumes "pink_body w s = Some (x, s1)" and "length (pinkRows s) = 16"
  shows "length (pinkRows s1) = 16 \<and>
     (pinkRunningSum s1 - sum_list (pinkRows s1) =
        pinkRunningSum s - sum_list (pinkRows s) + (w - fround w) \<or>
      pinkRunningSum s1 - sum_list (pinkRows s1) = pinkRunningSum s - sum_list (pinkRows s))"
proof -
  define i where "i = (pinkIndex s + 1) AND pinkIndexMask s"
  define k where "k = pink_zeros 0 i"
  show ?thesis
  proof (cases "k < 16")
    case True
    then have "sum_list ((pinkRows s)[k := fround w]) =
        sum_list (pinkRows s) - pinkRows s ! k + fround w"
      using assms(2) by (simp add: sum_list_store)
    with True assms show ?thesis
      by (auto simp: pink_body_eq [OF assms(2)] i_def [symmetric] k_def [symmetric])
  next
    case False
    with assms show ?thesis
      by (auto simp: pink_body_eq [OF assms(2)] i_def [symmetric] k_def [symmetric])
  qed
qed

lemma fresh_f32: "list_all (\<lambda>x. fround x = x) (fresh rnd p k)"
  by (simp add: list_all_length)

lemma buffers_f32_constructor: "buffers_f32 (constructor rnd)"
  by (simp add: buffers_f32_def constructor_eq fresh_f32)

lemma active_f32:
  assumes "well_formed s" and "buffers_f32 s"
  shows "fround (buffer_of (activeBuffer s) s ! index s) = buffer_of (activeBuffer s) s ! index s"
proof -
  have "list_all (\<lambda>x. fround x = x) (buffer_of (activeBuffer s) s)"
    using assms(2) by (cases "activeBuffer s") (simp_all add: buffers_f32_def)
  moreover have "index s < length (buffer_of (activeBuffer s) s)"
    using assms(1) by (simp add: well_formed_active) (simp add: well_formed_def)
  ultimately show ?thesis by (simp add: list_all_length)
qed

lemma pink_sum_step:
  assumes "well_formed s \<and> buffers_f32 s \<and> pinkRunningSum s = sum_list (pinkRows s)"
  shows "\<exists>x s1. pink s = Some (x, s1) \<and>
     (well_formed s1 \<and> buffers_f32 s1 \<and> pinkRunningSum s1 = sum_list (pinkRows s1)) \<and> True"
proof -
  from assms have wf: "well_formed s" and bf: "buffers_f32 s" by simp_all
  from pink_Some [OF wf] obtain x s1 where 1: "pink s = Some (x, s1)" "well_formed s1"
    and ar: "after_read s s1"
    by blast
  from ar bf have bf1: "buffers_f32 s1" by (simp add: after_read_def buffers_f32_def)
  from assms have "length (pinkRows (advance s)) = 16"
    and e: "pinkRunningSum (advance s) = sum_list (pinkRows (advance s))"
    by (simp_all add: well_formed_def)
  from pink_body_drift [OF 1(1) [unfolded pink_eq [OF wf]] this(1)] e active_f32 [OF wf bf]
  have "pinkRunningSum s1 = sum_list (pinkRows s1)" by auto
  with 1 bf1 show ?thesis by simp
qed

text \<open>
  In noise-processor.js the value that \<^verbatim>\<open>pink\<close> gets from \<^verbatim>\<open>white()\<close> comes out of a buffer,
  so it is a 32-bit float already and the row keeps it as it is: from the constructed state
  the running sum equals the sum of the 16 rows after any number of \<^verbatim>\<open>pink()\<close> calls.
\<close>

lemma pink_running_sum_buffered:
  "\<exists>xs s. calls pink n (constructor rnd) = Some (xs, s) \<and>
      pinkRunningSum s = sum_list (pinkRows s) \<and> length (pinkRows s) = 16"
proof -
  have "well_formed (constructor rnd) \<and> buffers_f32 (constructor rnd) \<and>
     pinkRunningSum (constructor rnd) = sum_list (pinkRows (constructor rnd))"
    by (simp add: well_formed_constructor buffers_f32_constructor)
      (simp add: constructor_eq sum_list_replicate)
  from calls_total [of "\<lambda>s. well_formed s \<and> buffers_f32 s \<and>
      pinkRunningSum s = sum_list (pinkRows s)" pink "\<lambda>x. True", OF pink_sum_step this, of n]
  show ?thesis by (auto simp: well_formed_def)
qed

lemma pink_zeros_2: "pink_zeros 0 2 = 1"
  by (subst pink_zeros.simps, simp, subst pink_zeros.simps, simp)

lemma pink_zeros_3: "pink_zeros 0 3 = 0"
  by (subst pink_zeros.simps) simp

lemma fround_fine_white: "fround (fine n * 2 - 1) = - 1"
  unfolding fine_def by (rule fround_fine)

lemma fround_fine_value: "fround (- (536870911 / 536870912)) = - 1"
  using fround_fine by simp

text \<open>
  C4. The invariant of the specification, running sum equal to the sum of the 16 rows,
  fails in the processor without buffers. \<^verbatim>\<open>white()\<close> is a double there; \<^verbatim>\<open>pink\<close> adds it
  to the running sum and stores it in a row, where it is rounded to 32 bits. With
  \<^verbatim>\<open>Math.random()\<close> equal to \<open>1 / 2 ^ 30\<close> the white value is \<open>- 1 + 1 / 2 ^ 29\<close> and the row
  keeps \<open>- 1\<close>: after one \<^verbatim>\<open>pink()\<close> from the constructed state the running sum is
  \<open>- 1 + 1 / 2 ^ 29\<close> and the rows add up to \<open>- 1\<close>; after three calls the running sum is
  \<open>- 2 + 3 / 2 ^ 29\<close> and the rows add up to \<open>- 2\<close>. The difference is not taken back: the next
  write of the row subtracts the rounded value. On the same input noise-processor.js, whose
  white values are 32-bit floats, keeps the two equal.
\<close>

theorem pink_plain_sum_drifts:
  "map_option (pinkRunningSum \<circ> snd) (calls pink_plain 1 (constructor_plain fine)) =
     Some (- 1 + 1 / 2 ^ 29) \<and>
   map_option (sum_list \<circ> pinkRows \<circ> snd) (calls pink_plain 1 (constructor_plain fine)) =
     Some (- 1) \<and>
   map_option (pinkRunningSum \<circ> snd) (calls pink_plain 3 (constructor_plain fine)) =
     Some (- 2 + 3 / 2 ^ 29) \<and>
   map_option (sum_list \<circ> pinkRows \<circ> snd) (calls pink_plain 3 (constructor_plain fine)) =
     Some (- 2) \<and>
   map_option (pinkRunningSum \<circ> snd) (calls pink 3 (constructor fine)) = Some (- 2) \<and>
   map_option (sum_list \<circ> pinkRows \<circ> snd) (calls pink 3 (constructor fine)) = Some (- 2)"
proof -
  define g0 where "g0 = constructor_plain fine"
  define g1 where "g1 = g0\<lparr>pinkRows := (replicate 16 0)[0 := - 1],
      pinkRunningSum := - 1 + 1 / 2 ^ 29, pinkIndex := 1, randPos := 1\<rparr>"
  define g2 where "g2 = g0\<lparr>pinkRows := (replicate 16 0)[0 := - 1, 1 := - 1],
      pinkRunningSum := - 2 + 2 / 2 ^ 29, pinkIndex := 2, randPos := 2\<rparr>"
  define g3 where "g3 = g0\<lparr>pinkRows := (replicate 16 0)[0 := - 1, 1 := - 1, 0 := - 1],
      pinkRunningSum := - 2 + 3 / 2 ^ 29, pinkIndex := 3, randPos := 3\<rparr>"
  have p1: "map_option snd (pink_plain g0) = Some g1"
    by (simp add: pink_plain_eq pink_body_eq g0_def g1_def constructor_plain_def fine_def
        fround_fine_value pink_zeros_odd)
  have p2: "map_option snd (pink_plain g1) = Some g2"
    by (simp add: pink_plain_eq pink_body_eq g0_def g1_def g2_def constructor_plain_def
        fine_def fround_fine_value pink_zeros_2)
  have p3: "map_option snd (pink_plain g2) = Some g3"
    by (simp add: pink_plain_eq pink_body_eq g0_def g2_def g3_def constructor_plain_def
        fine_def fround_fine_value pink_zeros_3)
  have c1: "map_option snd (calls pink_plain 1 g0) = Some g1"
    using p1 by (auto split: option.splits)
  have c3: "map_option snd (calls pink_plain 3 g0) = Some g3"
    using p1 p2 p3 by (auto simp: numeral_3_eq_3 split: option.splits)
  have r1: "pinkRunningSum g1 = - 1 + 1 / 2 ^ 29" "sum_list (pinkRows g1) = - 1"
    by (simp_all add: g1_def g0_def constructor_plain_def sum_list_store sum_list_replicate)
  have r3: "pinkRunningSum g3 = - 2 + 3 / 2 ^ 29" "sum_list (pinkRows g3) = - 2"
    by (simp_all add: g3_def g0_def constructor_plain_def sum_list_store sum_list_replicate)
  define s0 where "s0 = constructor fine"
  define s1 where "s1 = s0\<lparr>pinkRows := (replicate 16 0)[0 := - 1], pinkRunningSum := - 1,
      pinkIndex := 1, index := 1\<rparr>"
  define s2 where "s2 = s0\<lparr>pinkRows := (replicate 16 0)[0 := - 1, 1 := - 1],
      pinkRunningSum := - 2, pinkIndex := 2, index := 2\<rparr>"
  define s3 where "s3 = s0\<lparr>pinkRows := (replicate 16 0)[0 := - 1, 1 := - 1, 0 := - 1],
      pinkRunningSum := - 2, pinkIndex := 3, index := 3\<rparr>"
  have wf: "well_formed s0" "well_formed s1" "well_formed s2"
    by (simp_all add: s0_def s1_def s2_def well_formed_def constructor_eq)
  have q1: "map_option snd (pink s0) = Some s1"
    unfolding pink_eq [OF wf(1)]
    by (simp add: pink_body_eq s0_def s1_def constructor_eq advance_def fround_fine_white
        fround_m1 pink_zeros_odd)
  have q2: "map_option snd (pink s1) = Some s2"
    unfolding pink_eq [OF wf(2)]
    by (simp add: pink_body_eq s0_def s1_def s2_def constructor_eq advance_def
        fround_fine_white fround_m1 pink_zeros_2)
  have q3: "map_option snd (pink s2) = Some s3"
    unfolding pink_eq [OF wf(3)]
    by (simp add: pink_body_eq s0_def s2_def s3_def constructor_eq advance_def
        fround_fine_white fround_m1 pink_zeros_3)
  have d3: "map_option snd (calls pink 3 s0) = Some s3"
    using q1 q2 q3 by (auto simp: numeral_3_eq_3 split: option.splits)
  have t3: "pinkRunningSum s3 = - 2" "sum_list (pinkRows s3) = - 2"
    by (simp_all add: s3_def s0_def constructor_eq sum_list_store sum_list_replicate)
  have m: "map_option (f \<circ> snd) z = map_option f (map_option snd z)"
    for f :: "'s \<Rightarrow> real" and z :: "(real list \<times> 's) option"
    by (simp add: option.map_comp)
  have m2: "map_option (f \<circ> h \<circ> snd) z = map_option (f \<circ> h) (map_option snd z)"
    for f :: "real list \<Rightarrow> real" and h :: "'s \<Rightarrow> real list" and z :: "(real list \<times> 's) option"
    by (simp add: option.map_comp)
  show ?thesis
    unfolding g0_def [symmetric] s0_def [symmetric] m m2 c1 c3 d3
    using r1 r3 t3 by simp
qed

subsection \<open>Bounds of the samples\<close>

lemma sum_list_unit:
  fixes xs :: "real list"
  shows "list_all (\<lambda>x. \<bar>x\<bar> \<le> 1) xs \<Longrightarrow> \<bar>sum_list xs\<bar> \<le> real (length xs)"
  by (induction xs) auto

lemma list_all_store:
  "list_all P xs \<Longrightarrow> P x \<Longrightarrow> list_all P (xs[k := x])"
  by (induction xs arbitrary: k) (auto split: nat.splits)

lemma list_all_nth: "list_all P xs \<Longrightarrow> k < length xs \<Longrightarrow> P (xs ! k)"
  by (simp add: list_all_length)

lemma list_all_take: "list_all P xs \<Longrightarrow> list_all P (take n xs)"
  by (auto simp: list_all_iff dest: in_set_takeD)

lemma brown_arith:
  fixes w b :: real
  shows "\<bar>w\<bar> \<le> 1 \<Longrightarrow> \<bar>b\<bar> \<le> 1 \<Longrightarrow> \<bar>(b + 0.02 * w) / 1.02\<bar> \<le> 1"
  by (simp add: abs_le_iff field_simps)

lemma brown_gain_arith:
  fixes b :: real
  shows "\<bar>b\<bar> \<le> 1 \<Longrightarrow> \<bar>b * 3.5\<bar> \<le> 3.5"
  by (simp add: abs_le_iff field_simps)

lemma blue_arith:
  fixes w b :: real
  shows "\<bar>w\<bar> \<le> 1 \<Longrightarrow> \<bar>b\<bar> \<le> 1 \<Longrightarrow> \<bar>(w - b) * 0.7\<bar> \<le> 1.4"
  by (simp add: abs_le_iff field_simps)

lemma violet_arith:
  fixes w b c :: real
  shows "\<bar>w\<bar> \<le> 1 \<Longrightarrow> \<bar>b\<bar> \<le> 1 \<Longrightarrow> \<bar>c\<bar> \<le> 2 \<Longrightarrow>
    \<bar>(w - b - c) * 0.5\<bar> \<le> 2 \<and> \<bar>w - b\<bar> \<le> 2"
  by (simp add: abs_le_iff field_simps)

lemma pink_arith:
  fixes w r :: real
  shows "\<bar>r\<bar> \<le> 16 \<Longrightarrow> \<bar>w\<bar> \<le> 1 \<Longrightarrow> \<bar>(r + w) / 17\<bar> \<le> 1"
  by (simp add: abs_le_iff field_simps)

text \<open>
  The counter of \<^verbatim>\<open>pink\<close> below \<open>2 ^ m\<close> has fewer than \<open>m\<close> trailing zero bits, so the first
  16383 samples write the rows 0 to 13 only.
\<close>

lemma pink_zeros_less:
  "0 < n \<Longrightarrow> n < 2 ^ m \<Longrightarrow> k + m \<le> 16 \<Longrightarrow> pink_zeros k n < k + m"
proof (induction m arbitrary: k n)
  case 0
  then show ?case by simp
next
  case (Suc m)
  show ?case
  proof (cases "n AND 1 = 0 \<and> k < 16")
    case False
    then have "pink_zeros k n = k" by (subst pink_zeros.simps) auto
    then show ?thesis by simp
  next
    case True
    then have ev: "even n" by (simp add: and_one_eq even_iff_mod_2_eq_zero)
    have e: "pink_zeros k n = pink_zeros (Suc k) (n div 2)"
      using True by (subst pink_zeros.simps) (simp add: drop_bit_eq_div)
    from ev Suc.prems(1) have "0 < n div 2" by presburger
    moreover from Suc.prems(2) have "n div 2 < 2 ^ m" by simp
    moreover from Suc.prems(3) have "Suc k + m \<le> 16" by simp
    ultimately have "pink_zeros (Suc k) (n div 2) < Suc k + m" by (rule Suc.IH)
    then show ?thesis by (simp add: e)
  qed
qed

lemma pink_mask:
  fixes i :: int
  assumes "0 \<le> i" and "i < 65535"
  shows "(i + 1) AND 65535 = i + 1"
proof -
  have "(65535::int) = mask 16" by (simp add: mask_eq_exp_minus_1)
  then have "(i + 1) AND 65535 = take_bit 16 (i + 1)" by (simp add: take_bit_eq_mask)
  also have "\<dots> = (i + 1) mod 65536" by (simp add: take_bit_eq_mod)
  also have "\<dots> = i + 1" using assms by simp
  finally show ?thesis .
qed

lemma sum_list_14:
  fixes xs :: "real list"
  assumes "length xs = 16" and "list_all (\<lambda>x. \<bar>x\<bar> \<le> 1) xs" and "xs ! 14 = 0" and "xs ! 15 = 0"
  shows "\<bar>sum_list xs\<bar> \<le> 14"
proof -
  have d: "drop 14 xs = [xs ! 14, xs ! 15]"
    using assms(1) by (intro nth_equalityI) (auto simp: nth_Cons split: nat.splits)
  have "sum_list xs = sum_list (take 14 xs @ drop 14 xs)" by simp
  also have "\<dots> = sum_list (take 14 xs)" unfolding d sum_list_append using assms(3,4) by simp
  finally have "sum_list xs = sum_list (take 14 xs)" .
  moreover have "\<bar>sum_list (take 14 xs)\<bar> \<le> real (length (take 14 xs))"
    using assms(2) by (intro sum_list_unit list_all_take)
  ultimately show ?thesis using assms(1) by simp
qed

lemma pink_within_regs [simp]:
  "pink_within k (s\<lparr>brownLast := b\<rparr>) = pink_within k s"
  "pink_within k (s\<lparr>blueLast := c\<rparr>) = pink_within k s"
  "pink_within k (s\<lparr>violetLast := v\<rparr>) = pink_within k s"
  "pink_within k (s\<lparr>randPos := p\<rparr>) = pink_within k s"
  "pink_within k (s\<lparr>noiseType := t\<rparr>) = pink_within k s"
  "pink_within k (advance z) = pink_within k z"
  by (simp_all add: pink_within_def)

lemma pink_within_Suc: "pink_within k s \<Longrightarrow> pink_within (Suc k) s"
proof -
  assume a: "pink_within k s"
  have "real k / 2 ^ 25 \<le> real (Suc k) / 2 ^ 25" by (simp add: divide_right_mono)
  with a show ?thesis unfolding pink_within_def by linarith
qed

lemma pink_body_within:
  assumes pb: "pink_body w s = Some (x, s1)" and pw: "pink_within k s" and k: "k < 10000"
    and w: "\<bar>w\<bar> \<le> 1"
  shows "pink_within (Suc k) s1 \<and> \<bar>x\<bar> \<le> 1 \<and> brownLast s1 = brownLast s \<and>
     blueLast s1 = blueLast s \<and> violetLast s1 = violetLast s"
proof -
  from pw have len: "length (pinkRows s) = 16"
    and rows: "list_all (\<lambda>x. \<bar>x\<bar> \<le> 1) (pinkRows s)"
    and z: "pinkRows s ! 14 = 0" "pinkRows s ! 15 = 0"
    and mask: "pinkIndexMask s = 65535" and i0: "0 \<le> pinkIndex s"
    and ik: "pinkIndex s \<le> int k"
    and dr: "\<bar>pinkRunningSum s - sum_list (pinkRows s)\<bar> \<le> real k / 2 ^ 25"
    by (simp_all add: pink_within_def)
  define i where "i = pinkIndex s + 1"
  have ie: "(pinkIndex s + 1) AND pinkIndexMask s = i"
    unfolding mask i_def using i0 ik k by (intro pink_mask) simp_all
  define n where "n = pink_zeros 0 i"
  have "0 < i" "i < 2 ^ 14" using i0 ik k by (simp_all add: i_def)
  from pink_zeros_less [OF this, of 0] have n14: "n < 14" by (simp add: n_def)
  define rows1 where "rows1 = (pinkRows s)[n := fround w]"
  define r1 where "r1 = pinkRunningSum s - pinkRows s ! n + w"
  from pb n14 have s1: "s1 = s\<lparr>pinkRows := rows1, pinkRunningSum := r1, pinkIndex := i\<rparr>"
    and x: "x = (r1 + w) / 17"
    by (simp_all add: pink_body_eq [OF len] ie n_def [symmetric] Let_def rows1_def r1_def)
  have fw: "\<bar>fround w\<bar> \<le> 1" using w by (rule fround_abs_le)
  have len1: "length rows1 = 16" using len by (simp add: rows1_def)
  have b1: "list_all (\<lambda>x. \<bar>x\<bar> \<le> 1) rows1"
    unfolding rows1_def using rows fw by (rule list_all_store)
  have z1: "rows1 ! 14 = 0" "rows1 ! 15 = 0" using z n14 by (simp_all add: rows1_def)
  have "sum_list rows1 = sum_list (pinkRows s) - pinkRows s ! n + fround w"
    unfolding rows1_def using n14 len by (intro sum_list_store) simp
  then have "r1 - sum_list rows1 = pinkRunningSum s - sum_list (pinkRows s) + (w - fround w)"
    by (simp add: r1_def)
  moreover have "\<bar>w - fround w\<bar> \<le> 1 / 2 ^ 25" using fround_err [OF w] by (simp add: abs_minus_commute)
  ultimately have "\<bar>r1 - sum_list rows1\<bar> \<le> real k / 2 ^ 25 + 1 / 2 ^ 25" using dr by linarith
  also have "\<dots> = real (Suc k) / 2 ^ 25" by (simp add: field_simps)
  finally have dr1: "\<bar>r1 - sum_list rows1\<bar> \<le> real (Suc k) / 2 ^ 25" .
  have "real (Suc k) / 2 ^ 25 \<le> 1" using k by simp
  with dr1 sum_list_14 [OF len1 b1 z1] have "\<bar>r1\<bar> \<le> 16" by linarith
  from pink_arith [OF this w] have "\<bar>x\<bar> \<le> 1" unfolding x .
  moreover have "pink_within (Suc k) s1"
    unfolding pink_within_def using len1 b1 z1 mask i0 ik dr1 by (simp add: s1 i_def)
  ultimately show ?thesis by (simp add: s1)
qed

lemma brown_body_bounded:
  assumes "regs_bounded s" and "\<bar>w\<bar> \<le> 1"
  shows "regs_bounded (snd (brown_body w s)) \<and> \<bar>fst (brown_body w s)\<bar> \<le> 3.5"
proof -
  from assms have b: "\<bar>brownLast s\<bar> \<le> 1" by (simp add: regs_bounded_def)
  from brown_arith [OF assms(2) b] brown_gain_arith [OF brown_arith [OF assms(2) b]] assms(1)
  show ?thesis by (simp add: brown_body_eq regs_bounded_def)
qed

lemma blue_body_bounded:
  assumes "regs_bounded s" and "\<bar>w\<bar> \<le> 1"
  shows "regs_bounded (snd (blue_body w s)) \<and> \<bar>fst (blue_body w s)\<bar> \<le> 1.4"
proof -
  from assms have b: "\<bar>blueLast s\<bar> \<le> 1" by (simp add: regs_bounded_def)
  from blue_arith [OF assms(2) b] assms
  show ?thesis by (simp add: blue_body_eq regs_bounded_def)
qed

lemma violet_body_bounded:
  assumes "regs_bounded s" and "\<bar>w\<bar> \<le> 1"
  shows "regs_bounded (snd (violet_body w s)) \<and> \<bar>fst (violet_body w s)\<bar> \<le> 2"
proof -
  from assms have b: "\<bar>fst (violetLast s)\<bar> \<le> 1" "\<bar>snd (violetLast s)\<bar> \<le> 2"
    by (simp_all add: regs_bounded_def)
  from violet_arith [OF assms(2) b] assms
  show ?thesis by (simp add: violet_body_eq regs_bounded_def)
qed

lemma body_pink_within [simp]:
  "pink_within k (snd (brown_body w s)) = pink_within k s"
  "pink_within k (snd (blue_body w s)) = pink_within k s"
  "pink_within k (snd (violet_body w s)) = pink_within k s"
  by (simp_all add: brown_body_eq blue_body_eq violet_body_eq)

lemma fresh_bounded:
  assumes "\<forall>n. 0 \<le> rnd n \<and> rnd n \<le> 1"
  shows "list_all (\<lambda>x. \<bar>x\<bar> \<le> 1) (fresh rnd p k)"
proof -
  have "\<bar>rnd (p + j) * 2 - 1\<bar> \<le> 1" for j
    using assms [rule_format, of "p + j"] by (simp add: abs_le_iff)
  then have "\<bar>fround (rnd (p + j) * 2 - 1)\<bar> \<le> 1" for j by (rule fround_abs_le)
  then show ?thesis by (simp add: list_all_length)
qed

lemma list_all_replicate: "P x \<Longrightarrow> list_all P (replicate n x)"
  by (induction n) simp_all

lemma constructor_bounded:
  assumes "\<forall>n. 0 \<le> rnd n \<and> rnd n \<le> 1"
  shows "buffers_bounded (constructor rnd)" and "regs_bounded (constructor rnd)"
    and "regs_bounded (constructor_plain rnd)"
    and "pink_within 0 (constructor rnd)" and "pink_within 0 (constructor_plain rnd)"
  by (simp_all add: constructor_eq constructor_plain_def buffers_bounded_def regs_bounded_def
      pink_within_def sum_list_replicate list_all_replicate fresh_bounded [OF assms])

lemma active_bounded:
  assumes "well_formed s" and "buffers_bounded s"
  shows "\<bar>buffer_of (activeBuffer s) s ! index s\<bar> \<le> 1"
proof -
  have "list_all (\<lambda>x. \<bar>x\<bar> \<le> 1) (buffer_of (activeBuffer s) s)"
    using assms(2) by (cases "activeBuffer s") (simp_all add: buffers_bounded_def)
  moreover have "index s < length (buffer_of (activeBuffer s) s)"
    using assms(1) by (simp add: well_formed_active) (simp add: well_formed_def)
  ultimately show ?thesis by (rule list_all_nth)
qed

lemma regs_bounded_advance [simp]: "regs_bounded (advance s) = regs_bounded s"
  by (simp add: regs_bounded_def)

lemma regs_bounded_randPos [simp]: "regs_bounded (s\<lparr>randPos := p\<rparr>) = regs_bounded s"
  by (simp add: regs_bounded_def)

lemma buffers_bounded_after:
  "after_read s s1 \<Longrightarrow> buffers_bounded s1 = buffers_bounded s"
  by (simp add: after_read_def buffers_bounded_def)

text \<open>
  One sample of the kind \<open>t\<close>, one of the first 10000, keeps the bounds and is within the
  bound of the kind.
\<close>

lemma getSample_bounded:
  assumes "k < 10000" and "bounded_state t k s"
  shows "\<exists>x s1. getSample s = Some (x, s1) \<and> bounded_state t (Suc k) s1 \<and>
     \<bar>x\<bar> \<le> kind_bound t"
proof -
  from assms(2) have wf: "well_formed s" and bb: "buffers_bounded s" and rb: "regs_bounded s"
    and pw: "pink_within k s" and t: "noiseType s = t" by (simp_all add: bounded_state_def)
  let ?w = "buffer_of (activeBuffer s) s ! index s"
  have w: "\<bar>?w\<bar> \<le> 1" using wf bb by (rule active_bounded)
  have ra: "regs_bounded (advance s)" using rb by simp
  have pa: "pink_within k (advance s)" using pw by simp
  from getSample_Some [OF wf] obtain x s1 where
    g: "getSample s = Some (x, s1)" and wf1: "well_formed s1" and ar: "after_read s s1"
    by blast
  have bb1: "buffers_bounded s1" using ar bb by (simp add: buffers_bounded_after)
  have t1: "noiseType s1 = t" using ar t by (simp add: after_read_def)
  have "regs_bounded s1 \<and> pink_within (Suc k) s1 \<and> \<bar>x\<bar> \<le> kind_bound t"
  proof (cases "t = ''pink''")
    case True
    with g t have "pink_body ?w (advance s) = Some (x, s1)"
      by (simp add: getSample_def pink_eq [OF wf])
    from pink_body_within [OF this pa assms(1) w] ra True show ?thesis
      by (simp add: kind_bound_def regs_bounded_def)
  next
    case np: False
    show ?thesis
    proof (cases "t = ''brown''")
      case True
      with g t have e: "brown_body ?w (advance s) = (x, s1)"
        by (simp add: getSample_def brown_eq [OF wf])
      from body_pink_within(1) [of "Suc k" ?w "advance s"] e pink_within_Suc [OF pa]
      have "pink_within (Suc k) s1" by simp
      with e brown_body_bounded [OF ra w] True show ?thesis by (simp add: kind_bound_def)
    next
      case nb: False
      show ?thesis
      proof (cases "t = ''blue''")
        case True
        with g t have e: "blue_body ?w (advance s) = (x, s1)"
          by (simp add: getSample_def blue_eq [OF wf])
        from body_pink_within(2) [of "Suc k" ?w "advance s"] e pink_within_Suc [OF pa]
        have "pink_within (Suc k) s1" by simp
        with e blue_body_bounded [OF ra w] True show ?thesis by (simp add: kind_bound_def)
      next
        case nl: False
        show ?thesis
        proof (cases "t = ''violet''")
          case True
          with g t have e: "violet_body ?w (advance s) = (x, s1)"
            by (simp add: getSample_def violet_eq [OF wf])
          from body_pink_within(3) [of "Suc k" ?w "advance s"] e pink_within_Suc [OF pa]
          have "pink_within (Suc k) s1" by simp
          with e violet_body_bounded [OF ra w] True show ?thesis by (simp add: kind_bound_def)
        next
          case False
          with np nb nl g t have "x = ?w" "s1 = advance s"
            by (simp_all add: getSample_def white_advance [OF wf])
          with w ra np nb nl False pink_within_Suc [OF pa] show ?thesis
            by (simp add: kind_bound_def)
        qed
      qed
    qed
  qed
  with g wf1 bb1 t1 show ?thesis by (simp add: bounded_state_def)
qed

lemma getSample_plain_bounded:
  assumes "k < 10000" and "bounded_plain t k g"
  shows "\<exists>x g1. getSample_plain g = Some (x, g1) \<and> bounded_plain t (Suc k) g1 \<and>
     \<bar>x\<bar> \<le> kind_bound t"
proof -
  from assms(2) have rnd: "\<forall>n. 0 \<le> rand g n \<and> rand g n \<le> 1" and rb: "regs_bounded g"
    and pw: "pink_within k g" and t: "noiseType g = t" by (simp_all add: bounded_plain_def)
  let ?w = "rand g (randPos g) * 2 - 1"
  let ?g = "g\<lparr>randPos := Suc (randPos g)\<rparr>"
  have w: "\<bar>?w\<bar> \<le> 1" using rnd [rule_format, of "randPos g"] by (simp add: abs_le_iff)
  have ra: "regs_bounded ?g" using rb by simp
  have pa: "pink_within k ?g" using pw by simp
  from pw have len: "length (pinkRows g) = 16" by (simp add: pink_within_def)
  from getSample_plain_Some [OF this] obtain x g1 where
    g: "getSample_plain g = Some (x, g1)" by blast
  have "regs_bounded g1 \<and> pink_within (Suc k) g1 \<and> \<bar>x\<bar> \<le> kind_bound t \<and> rand g1 = rand g \<and>
    noiseType g1 = t"
  proof (cases "t = ''pink''")
    case True
    with g t have pb: "pink_body ?w ?g = Some (x, g1)"
      by (simp add: getSample_plain_def pink_plain_eq)
    from len have "length (pinkRows ?g) = 16" by simp
    from pink_body_shape [OF this, of ?w] pb have "rand g1 = rand g \<and> noiseType g1 = noiseType g"
      by auto
    with pink_body_within [OF pb pa assms(1) w] ra True t show ?thesis
      by (simp add: kind_bound_def regs_bounded_def)
  next
    case np: False
    show ?thesis
    proof (cases "t = ''brown''")
      case True
      with g t have e: "brown_body ?w ?g = (x, g1)"
        by (simp add: getSample_plain_def brown_plain_eq)
      then have "rand g1 = rand g \<and> noiseType g1 = noiseType g"
        by (auto simp: brown_body_eq)
      moreover from body_pink_within(1) [of "Suc k" ?w ?g] e pink_within_Suc [OF pa]
      have "pink_within (Suc k) g1" by simp
      ultimately show ?thesis
        using e brown_body_bounded [OF ra w] True t by (simp add: kind_bound_def)
    next
      case nb: False
      show ?thesis
      proof (cases "t = ''blue''")
        case True
        with g t have e: "blue_body ?w ?g = (x, g1)"
          by (simp add: getSample_plain_def blue_plain_eq)
        then have "rand g1 = rand g \<and> noiseType g1 = noiseType g"
          by (auto simp: blue_body_eq)
        moreover from body_pink_within(2) [of "Suc k" ?w ?g] e pink_within_Suc [OF pa]
        have "pink_within (Suc k) g1" by simp
        ultimately show ?thesis
          using e blue_body_bounded [OF ra w] True t by (simp add: kind_bound_def)
      next
        case nl: False
        show ?thesis
        proof (cases "t = ''violet''")
          case True
          with g t have e: "violet_body ?w ?g = (x, g1)"
            by (simp add: getSample_plain_def violet_plain_eq)
          then have "rand g1 = rand g \<and> noiseType g1 = noiseType g"
            by (auto simp: violet_body_eq)
          moreover from body_pink_within(3) [of "Suc k" ?w ?g] e pink_within_Suc [OF pa]
          have "pink_within (Suc k) g1" by simp
          ultimately show ?thesis
            using e violet_body_bounded [OF ra w] True t by (simp add: kind_bound_def)
        next
          case False
          with np nb nl g t have "x = ?w" "g1 = ?g"
            by (simp_all add: getSample_plain_def white_plain_eq)
          with w ra np nb nl False t pink_within_Suc [OF pa] show ?thesis
            by (simp add: kind_bound_def)
        qed
      qed
    qed
  qed
  with g rnd show ?thesis by (simp add: bounded_plain_def)
qed

lemma calls_counted:
  assumes step: "\<And>k s. k < N \<Longrightarrow> J k s \<Longrightarrow> \<exists>x s1. f s = Some (x, s1) \<and> J (Suc k) s1 \<and> Q x"
  shows "J k s \<Longrightarrow> k + n \<le> N \<Longrightarrow>
    \<exists>xs s1. calls f n s = Some (xs, s1) \<and> J (k + n) s1 \<and> list_all Q xs"
proof (induction n arbitrary: k s)
  case 0
  then show ?case by simp
next
  case (Suc n)
  from Suc.prems have "k < N" by simp
  from step [OF this Suc.prems(1)] obtain x s1 where
    1: "f s = Some (x, s1)" "J (Suc k) s1" "Q x" by blast
  from Suc.prems(2) have "Suc k + n \<le> N" by simp
  from Suc.IH [OF 1(2) this] obtain xs s2 where
    "calls f n s1 = Some (xs, s2)" "J (Suc k + n) s2" "list_all Q xs" by blast
  with 1 show ?case by simp
qed

lemma regs_bounded_onmessage [simp]: "regs_bounded (onmessage m s) = regs_bounded s"
  by (simp add: regs_bounded_def onmessage_def)

lemma pink_within_onmessage [simp]: "pink_within k (onmessage m s) = pink_within k s"
  by (simp add: pink_within_def onmessage_def)

lemma buffers_bounded_onmessage [simp]: "buffers_bounded (onmessage m s) = buffers_bounded s"
  by (simp add: buffers_bounded_def onmessage_def)

subsection \<open>The drift of the running sum without buffers\<close>

text \<open>
  On the stream of C4 every one of the first 65535 \<^verbatim>\<open>pink()\<close> calls of the processor
  without buffers writes a row, and each write moves the running sum away from the sum of
  the rows by another \<open>1 / 2 ^ 29\<close>.
\<close>

lemma pink_plain_drifting:
  assumes "k < 65535" and "drifting k g"
  shows "\<exists>x g1. pink_plain g = Some (x, g1) \<and> drifting (Suc k) g1 \<and> True"
proof -
  from assms(2) have len: "length (pinkRows g) = 16" and mask: "pinkIndexMask g = 65535"
    and idx: "pinkIndex g = int k" and rnd: "rand g = fine"
    and dr: "pinkRunningSum g - sum_list (pinkRows g) = real k / 2 ^ 29"
    by (simp_all add: drifting_def)
  let ?g = "g\<lparr>randPos := Suc (randPos g)\<rparr>"
  define w where "w = fine (randPos g) * 2 - 1"
  have fw: "w - fround w = 1 / 2 ^ 29"
    unfolding w_def fround_fine_white by (simp add: fine_def)
  define i where "i = pinkIndex g + 1"
  have ie: "(pinkIndex g + 1) AND pinkIndexMask g = i"
    using assms(1) by (simp add: mask idx i_def pink_mask)
  define n where "n = pink_zeros 0 i"
  have "0 < i" "i < 2 ^ 16" using assms(1) by (simp_all add: i_def idx)
  from pink_zeros_less [OF this, of 0] have n16: "n < 16" by (simp add: n_def)
  define rows1 where "rows1 = (pinkRows g)[n := fround w]"
  define r1 where "r1 = pinkRunningSum g - pinkRows g ! n + w"
  have len': "length (pinkRows ?g) = 16" using len by simp
  have p: "pink_plain g =
      Some ((r1 + w) / 17, ?g\<lparr>pinkRows := rows1, pinkRunningSum := r1, pinkIndex := i\<rparr>)"
    using n16
    by (simp add: pink_plain_eq rnd w_def [symmetric] pink_body_eq [OF len'] ie
        n_def [symmetric] Let_def rows1_def r1_def)
  have "sum_list rows1 = sum_list (pinkRows g) - pinkRows g ! n + fround w"
    unfolding rows1_def using n16 len by (intro sum_list_store) simp
  then have "r1 - sum_list rows1 = pinkRunningSum g - sum_list (pinkRows g) + (w - fround w)"
    by (simp add: r1_def)
  also have "\<dots> = real (Suc k) / 2 ^ 29" unfolding dr fw by (simp add: field_simps)
  finally have "drifting (Suc k)
      (?g\<lparr>pinkRows := rows1, pinkRunningSum := r1, pinkIndex := i\<rparr>)"
    using len mask rnd by (simp add: drifting_def rows1_def i_def idx)
  with p show ?thesis by blast
qed

lemma pink_plain_drift:
  assumes "n \<le> 65535"
  shows "\<exists>xs g. calls pink_plain n (constructor_plain fine) = Some (xs, g) \<and>
     pinkRunningSum g - sum_list (pinkRows g) = real n / 2 ^ 29"
proof -
  have 0: "drifting 0 (constructor_plain fine)"
    by (simp add: drifting_def constructor_plain_def sum_list_replicate)
  from assms have n: "0 + n \<le> 65535" by simp
  from calls_counted [where N = 65535 and J = drifting and f = pink_plain
      and Q = "\<lambda>x. True", OF pink_plain_drifting 0 n]
  show ?thesis by (auto simp: drifting_def)
qed

subsection \<open>The leaky integrator of brown\<close>

lemma brown_bounded:
  assumes "well_formed s \<and> buffers_bounded s \<and> regs_bounded s"
  shows "\<exists>x s1. brown s = Some (x, s1) \<and>
     (well_formed s1 \<and> buffers_bounded s1 \<and> regs_bounded s1) \<and> \<bar>x\<bar> \<le> 3.5"
proof -
  from assms have wf: "well_formed s" and bb: "buffers_bounded s" and rb: "regs_bounded s"
    by simp_all
  let ?w = "buffer_of (activeBuffer s) s ! index s"
  have w: "\<bar>?w\<bar> \<le> 1" using wf bb by (rule active_bounded)
  have ra: "regs_bounded (advance s)" using rb by simp
  from brown_Some [OF wf] obtain x s1 where
    g: "brown s = Some (x, s1)" and wf1: "well_formed s1" and ar: "after_read s s1"
    by blast
  have bb1: "buffers_bounded s1" using ar bb by (simp add: buffers_bounded_after)
  from g have "brown_body ?w (advance s) = (x, s1)" by (simp add: brown_eq [OF wf])
  with brown_body_bounded [OF ra w] g wf1 bb1 show ?thesis by simp
qed

lemma brown_plain_bounded:
  assumes "(\<forall>n. 0 \<le> rand g n \<and> rand g n \<le> 1) \<and> regs_bounded g"
  shows "\<exists>x g1. brown_plain g = Some (x, g1) \<and>
     ((\<forall>n. 0 \<le> rand g1 n \<and> rand g1 n \<le> 1) \<and> regs_bounded g1) \<and> \<bar>x\<bar> \<le> 3.5"
proof -
  from assms have rnd: "\<forall>n. 0 \<le> rand g n \<and> rand g n \<le> 1" and rb: "regs_bounded g"
    by simp_all
  let ?w = "rand g (randPos g) * 2 - 1"
  let ?g = "g\<lparr>randPos := Suc (randPos g)\<rparr>"
  have w: "\<bar>?w\<bar> \<le> 1" using rnd [rule_format, of "randPos g"] by (simp add: abs_le_iff)
  have ra: "regs_bounded ?g" using rb by (simp add: regs_bounded_def)
  obtain x g1 where e: "brown_body ?w ?g = (x, g1)" by (cases "brown_body ?w ?g")
  then have "rand g1 = rand g" by (auto simp: brown_body_eq)
  with e brown_body_bounded [OF ra w] rnd show ?thesis by (simp add: brown_plain_eq)
qed

text \<open>
  C6. One \<^verbatim>\<open>brown()\<close> replaces the accumulator \<open>brownLast\<close> by
  \<open>(brownLast + 0.02 * white) / 1.02\<close>, \<open>white\<close> being the value read from the uniform
  source, and returns the new accumulator times 3.5. From a fresh processor whose
  \<^verbatim>\<open>Math.random()\<close> values lie in \<open>[0, 1]\<close> (so the white values lie in \<open>[-1, 1]\<close>, the
  alternating inputs 1 and -1 among them), after any number of \<^verbatim>\<open>brown()\<close> calls the
  accumulator is at most 1 / 0.02 = 50 in absolute value. Both files.
\<close>

theorem brown_leaky_integrator:
  fixes s :: processor and g :: gen
  assumes "well_formed s" and "\<forall>n. 0 \<le> rnd n \<and> rnd n \<le> 1"
  shows "brown s =
       Some ((brownLast s + 0.02 * (buffer_of (activeBuffer s) s ! index s)) / 1.02 * 3.5,
         (advance s)\<lparr>brownLast :=
            (brownLast s + 0.02 * (buffer_of (activeBuffer s) s ! index s)) / 1.02\<rparr>) \<and>
     brown_plain g =
       Some ((brownLast g + 0.02 * (rand g (randPos g) * 2 - 1)) / 1.02 * 3.5,
         g\<lparr>randPos := Suc (randPos g),
           brownLast := (brownLast g + 0.02 * (rand g (randPos g) * 2 - 1)) / 1.02\<rparr>) \<and>
     (\<exists>xs s1. calls brown n (constructor rnd) = Some (xs, s1) \<and> \<bar>brownLast s1\<bar> \<le> 1 / 0.02) \<and>
     (\<exists>xs g1. calls brown_plain n (constructor_plain rnd) = Some (xs, g1) \<and>
        \<bar>brownLast g1\<bar> \<le> 1 / 0.02)"
proof -
  have 1: "brown s =
       Some ((brownLast s + 0.02 * (buffer_of (activeBuffer s) s ! index s)) / 1.02 * 3.5,
         (advance s)\<lparr>brownLast :=
            (brownLast s + 0.02 * (buffer_of (activeBuffer s) s ! index s)) / 1.02\<rparr>)"
    by (simp add: brown_eq [OF assms(1)] brown_body_eq)
  have 2: "brown_plain g =
       Some ((brownLast g + 0.02 * (rand g (randPos g) * 2 - 1)) / 1.02 * 3.5,
         g\<lparr>randPos := Suc (randPos g),
           brownLast := (brownLast g + 0.02 * (rand g (randPos g) * 2 - 1)) / 1.02\<rparr>)"
    by (simp add: brown_plain_eq brown_body_eq)
  have "well_formed (constructor rnd) \<and> buffers_bounded (constructor rnd) \<and>
      regs_bounded (constructor rnd)"
    using constructor_bounded [OF assms(2)] well_formed_constructor [of rnd] by simp
  from calls_total [of "\<lambda>s. well_formed s \<and> buffers_bounded s \<and> regs_bounded s" brown
      "\<lambda>x. \<bar>x\<bar> \<le> 3.5", OF brown_bounded this, of n]
  obtain xs s1 where c: "calls brown n (constructor rnd) = Some (xs, s1)" "regs_bounded s1"
    by blast
  then have "\<bar>brownLast s1\<bar> \<le> 1 / 0.02" by (simp add: regs_bounded_def)
  with c have 3: "\<exists>xs s1. calls brown n (constructor rnd) = Some (xs, s1) \<and>
      \<bar>brownLast s1\<bar> \<le> 1 / 0.02"
    by blast
  have "(\<forall>n. 0 \<le> rand (constructor_plain rnd) n \<and> rand (constructor_plain rnd) n \<le> 1) \<and>
      regs_bounded (constructor_plain rnd)"
    using constructor_bounded [OF assms(2)] assms(2) by (simp add: constructor_plain_def)
  from calls_total [of "\<lambda>g. (\<forall>n. 0 \<le> rand g n \<and> rand g n \<le> 1) \<and> regs_bounded g"
      brown_plain "\<lambda>x. \<bar>x\<bar> \<le> 3.5", OF brown_plain_bounded this, of n]
  obtain ys g1 where d: "calls brown_plain n (constructor_plain rnd) = Some (ys, g1)"
    "regs_bounded g1"
    by blast
  then have "\<bar>brownLast g1\<bar> \<le> 1 / 0.02" by (simp add: regs_bounded_def)
  with d have 4: "\<exists>xs g1. calls brown_plain n (constructor_plain rnd) = Some (xs, g1) \<and>
        \<bar>brownLast g1\<bar> \<le> 1 / 0.02"
    by blast
  from 1 2 3 4 show ?thesis by blast
qed

lemma square_range: "\<forall>n. 0 \<le> square n \<and> square n \<le> 1"
  by (simp add: square_def)

theorem brown_leaky_integrator_witness:
  "well_formed (constructor square) \<and> (\<forall>n. 0 \<le> square n \<and> square n \<le> 1) \<and>
   (\<exists>xs s1. calls brown 1000000 (constructor square) = Some (xs, s1) \<and>
      \<bar>brownLast s1\<bar> \<le> 1 / 0.02) \<and>
   (\<exists>xs g1. calls brown_plain 1000000 (constructor_plain square) = Some (xs, g1) \<and>
      \<bar>brownLast g1\<bar> \<le> 1 / 0.02)"
  using brown_leaky_integrator [where s = "constructor square" and rnd = square
      and n = 1000000 and g = "constructor_plain square"]
    well_formed_constructor [of square] square_range
  by blast

subsection \<open>The refill\<close>

lemma bufferFill_eq:
  "bufferFill b start count s =
     (let n = min count (length (buffer_of b s) - start)
      in (set_buffer b (overwrite (buffer_of b s) start (fresh (rand s) (randPos s) n)) s)
           \<lparr>randPos := randPos s + n\<rparr>)"
  by (simp add: bufferFill_def bufferFill_loop_eq)

lemma buffer_of_update [simp]:
  "buffer_of b (s\<lparr>frameCount := k\<rparr>) = buffer_of b s"
  "buffer_of b (s\<lparr>fillPointer := p\<rparr>) = buffer_of b s"
  "buffer_of b (s\<lparr>activeBuffer := c\<rparr>) = buffer_of b s"
  "buffer_of b (s\<lparr>inactiveBuffer := c\<rparr>) = buffer_of b s"
  "buffer_of b (s\<lparr>noiseType := t\<rparr>) = buffer_of b s"
  by (cases b; simp)+

lemma set_buffer_frameCount:
  "set_buffer b xs (s\<lparr>frameCount := k\<rparr>) = (set_buffer b xs s)\<lparr>frameCount := k\<rparr>"
  by (cases b) simp_all

lemma set_buffer_fields [simp]:
  "index (set_buffer b xs s) = index s" "bufferSize (set_buffer b xs s) = bufferSize s"
  "activeBuffer (set_buffer b xs s) = activeBuffer s"
  "inactiveBuffer (set_buffer b xs s) = inactiveBuffer s"
  "fillPointer (set_buffer b xs s) = fillPointer s"
  "frameCount (set_buffer b xs s) = frameCount s"
  "pinkRows (set_buffer b xs s) = pinkRows s" "noiseType (set_buffer b xs s) = noiseType s"
  "pinkRunningSum (set_buffer b xs s) = pinkRunningSum s"
  "pinkIndex (set_buffer b xs s) = pinkIndex s"
  "pinkIndexMask (set_buffer b xs s) = pinkIndexMask s"
  "brownLast (set_buffer b xs s) = brownLast s" "blueLast (set_buffer b xs s) = blueLast s"
  "violetLast (set_buffer b xs s) = violetLast s"
  by (cases b; simp)+

lemma well_formed_set_buffer:
  "well_formed s \<Longrightarrow> length xs = bufferSize s \<Longrightarrow> well_formed (set_buffer b xs s)"
  by (cases b) (simp_all add: well_formed_def)

text \<open>The refill written out.\<close>

lemma refill_eq:
  assumes "well_formed s"
    and "fillPointer s < bufferSize s \<longrightarrow> fillPointer s + 4800 \<le> bufferSize s"
  shows "refill s =
     (if Suc (frameCount s) mod 10 = 0 \<and> fillPointer s < bufferSize s
      then (set_buffer (inactiveBuffer s)
              (overwrite (buffer_of (inactiveBuffer s) s) (fillPointer s)
                 (fresh (rand s) (randPos s) 4800)) s)
             \<lparr>randPos := randPos s + 4800, fillPointer := fillPointer s + 4800,
               frameCount := Suc (frameCount s)\<rparr>
      else s\<lparr>frameCount := Suc (frameCount s)\<rparr>)"
proof (cases "Suc (frameCount s) mod 10 = 0 \<and> fillPointer s < bufferSize s")
  case False
  then show ?thesis by (auto simp: refill_def Let_def)
next
  case True
  have len: "length (buffer_of (inactiveBuffer s) s) = bufferSize s"
    using assms(1) by (rule well_formed_active)
  from True assms(2) have "min 4800 (bufferSize s - fillPointer s) = 4800" by simp
  with True show ?thesis
    by (simp add: refill_def Let_def bufferFill_eq len set_buffer_frameCount)
qed

lemma aligned_room:
  assumes "(4800::nat) dvd c" and "4800 dvd p" and "p < c"
  shows "p + 4800 \<le> c"
proof -
  from assms obtain a b where "c = 4800 * a" "p = 4800 * b" by (auto simp: dvd_def)
  with assms(3) show ?thesis by simp
qed

lemma refill_frame:
  assumes "well_formed s" and "4800 dvd bufferSize s" and "4800 dvd fillPointer s"
  shows "buffer_of (activeBuffer s) (refill s) = buffer_of (activeBuffer s) s"
    and "activeBuffer (refill s) = activeBuffer s"
    and "inactiveBuffer (refill s) = inactiveBuffer s"
    and "well_formed (refill s)"
    and "bufferSize (refill s) = bufferSize s"
    and "4800 dvd fillPointer (refill s)"
    and "index (refill s) = index s"
    and "frameCount (refill s) = Suc (frameCount s)"
proof -
  have room: "fillPointer s < bufferSize s \<longrightarrow> fillPointer s + 4800 \<le> bufferSize s"
    using aligned_room [OF assms(2,3)] by blast
  note r = refill_eq [OF assms(1) room]
  have ne: "activeBuffer s \<noteq> inactiveBuffer s" using assms(1) by (simp add: well_formed_def)
  have len: "length (buffer_of (inactiveBuffer s) s) = bufferSize s"
    using assms(1) by (rule well_formed_active)
  show "buffer_of (activeBuffer s) (refill s) = buffer_of (activeBuffer s) s"
    using ne by (simp add: r)
  show "activeBuffer (refill s) = activeBuffer s" "inactiveBuffer (refill s) = inactiveBuffer s"
    "bufferSize (refill s) = bufferSize s" "index (refill s) = index s"
    "frameCount (refill s) = Suc (frameCount s)"
    by (simp_all add: r)
  show "4800 dvd fillPointer (refill s)" using assms(3) by (simp add: r)
  show "well_formed (refill s)"
  proof (cases "Suc (frameCount s) mod 10 = 0 \<and> fillPointer s < bufferSize s")
    case False
    with assms(1) show ?thesis by (auto simp: r)
  next
    case True
    with room have "length (overwrite (buffer_of (inactiveBuffer s) s) (fillPointer s)
                 (fresh (rand s) (randPos s) 4800)) = bufferSize s"
      by (simp add: len)
    from well_formed_set_buffer [OF assms(1) this] True show ?thesis by (simp add: r)
  qed
qed

lemma getSample_keeps:
  assumes "well_formed s \<and> bufferSize s = c \<and> frameCount s = k \<and> 4800 dvd fillPointer s \<and>
     rand s = r \<and> randPos s = p \<and> noiseType s = t"
  shows "\<exists>x s1. getSample s = Some (x, s1) \<and>
     (well_formed s1 \<and> bufferSize s1 = c \<and> frameCount s1 = k \<and> 4800 dvd fillPointer s1 \<and>
      rand s1 = r \<and> randPos s1 = p \<and> noiseType s1 = t) \<and> True"
proof -
  from assms have wf: "well_formed s" by simp
  from getSample_Some [OF wf] obtain x s1 where
    g: "getSample s = Some (x, s1)" "well_formed s1" "after_read s s1" by blast
  have "4800 dvd fillPointer (advance s)" using assms by (simp add: advance_def)
  with g assms show ?thesis by (simp add: after_read_def)
qed

lemma samples_keep:
  assumes "well_formed s" and "4800 dvd fillPointer s"
  shows "\<exists>xs s1. calls getSample n s = Some (xs, s1) \<and> well_formed s1 \<and>
     bufferSize s1 = bufferSize s \<and> frameCount s1 = frameCount s \<and> 4800 dvd fillPointer s1 \<and>
     rand s1 = rand s \<and> randPos s1 = randPos s \<and> noiseType s1 = noiseType s"
proof -
  from assms have "well_formed s \<and> bufferSize s = bufferSize s \<and> frameCount s = frameCount s \<and>
     4800 dvd fillPointer s \<and> rand s = rand s \<and> randPos s = randPos s \<and>
     noiseType s = noiseType s"
    by simp
  from calls_total [of "\<lambda>s1. well_formed s1 \<and> bufferSize s1 = bufferSize s \<and>
      frameCount s1 = frameCount s \<and> 4800 dvd fillPointer s1 \<and> rand s1 = rand s \<and>
      randPos s1 = randPos s \<and> noiseType s1 = noiseType s" getSample "\<lambda>x. True",
      OF getSample_keeps this, of n]
  show ?thesis by blast
qed

lemma blocks_append:
  "blocks p (bs @ cs) s =
     (case blocks p bs s of
        None \<Rightarrow> None
      | Some (outs, s1) \<Rightarrow>
          (case blocks p cs s1 of None \<Rightarrow> None | Some (outs', s2) \<Rightarrow> Some (outs @ outs', s2)))"
  by (induction bs arbitrary: s) (auto split: option.splits)

lemma blocks_one_more:
  assumes "blocks p (replicate n b) c = Some (outs1, s1)"
    and "p b s1 = Some (o2, s2)"
  shows "blocks p (replicate (n + 1) b) c = Some (outs1 @ [o2], s2)"
proof -
  have "replicate (n + 1) b = replicate n b @ [b]"
    using replicate_add [of n 1 b] by simp
  with assms show ?thesis by (simp add: blocks_append)
qed

lemma process_white_inside:
  assumes "well_formed s" and "noiseType s = ''white''" and "index s + k < bufferSize s"
  shows "process [[replicate k 0]] s =
     Some ([[take k (drop (index s) (buffer_of (activeBuffer s) s))]],
           refill (s\<lparr>index := index s + k\<rparr>))"
proof -
  have "calls getSample k s = calls white k s"
    using assms(2) by (intro calls_fallback) simp
  then have c: "calls getSample (length (concat [replicate k (0::real)])) s =
      Some (take k (drop (index s) (buffer_of (activeBuffer s) s)), s\<lparr>index := index s + k\<rparr>)"
    using calls_white_inside [OF assms(1,3)] by simp
  have "length (buffer_of (activeBuffer s) s) = bufferSize s"
    using assms(1) by (rule well_formed_active)
  with assms(3) have "length (take k (drop (index s) (buffer_of (activeBuffer s) s))) = k"
    by simp
  with process_calls [OF c, of "[]"] show ?thesis by simp
qed

text \<open>
  C7. Let the processor be well formed with the capacity and the refill marker multiples
  of 4800. The constructor establishes this with the call count 0 and \<^verbatim>\<open>process\<close> keeps it
  (the last lines of the statement). \<^verbatim>\<open>process\<close> first fills the block, which leaves a
  state \<open>s1\<close>, then counts the call. If the count is a multiple of 10 and the marker of
  \<open>s1\<close> is below the capacity, the 4800 next \<^verbatim>\<open>Math.random() * 2 - 1\<close> values are stored in
  the inactive buffer from the marker on, all of them inside the buffer, and the marker
  goes up by 4800. Otherwise (not a 10th call, or the marker at the capacity) nothing but
  the count changes. In either case the active buffer is left as it is, and the two
  references stay different.
\<close>

theorem refill_policy:
  assumes "well_formed s" and "4800 dvd bufferSize s" and "4800 dvd fillPointer s"
  shows "\<exists>out1 s1.
     fill_channels getSample 0 out s = Some (out1, s1) \<and>
     process (out # rest) s = Some (out1 # rest, refill s1) \<and>
     well_formed s1 \<and> bufferSize s1 = bufferSize s \<and> frameCount s1 = frameCount s \<and>
     4800 dvd fillPointer s1 \<and>
     refill s1 =
       (if Suc (frameCount s) mod 10 = 0 \<and> fillPointer s1 < bufferSize s
        then (set_buffer (inactiveBuffer s1)
                (overwrite (buffer_of (inactiveBuffer s1) s1) (fillPointer s1)
                   (fresh (rand s1) (randPos s1) 4800)) s1)
               \<lparr>randPos := randPos s1 + 4800, fillPointer := fillPointer s1 + 4800,
                 frameCount := Suc (frameCount s)\<rparr>
        else s1\<lparr>frameCount := Suc (frameCount s)\<rparr>) \<and>
     (fillPointer s1 < bufferSize s \<longrightarrow> fillPointer s1 + 4800 \<le> bufferSize s) \<and>
     buffer_of (activeBuffer s1) (refill s1) = buffer_of (activeBuffer s1) s1 \<and>
     activeBuffer (refill s1) = activeBuffer s1 \<and>
     inactiveBuffer (refill s1) = inactiveBuffer s1 \<and>
     inactiveBuffer s1 \<noteq> activeBuffer s1 \<and>
     frameCount (refill s1) = Suc (frameCount s) \<and>
     well_formed (refill s1) \<and> 4800 dvd bufferSize (refill s1) \<and>
     4800 dvd fillPointer (refill s1) \<and>
     well_formed (constructor rnd) \<and> 4800 dvd bufferSize (constructor rnd) \<and>
     4800 dvd fillPointer (constructor rnd) \<and> frameCount (constructor rnd) = 0"
proof -
  from samples_keep [OF assms(1,3), of "length (concat out)"]
  obtain xs s1 where c: "calls getSample (length (concat out)) s = Some (xs, s1)"
    and wf1: "well_formed s1" and k: "bufferSize s1 = bufferSize s"
    "frameCount s1 = frameCount s" and al: "4800 dvd fillPointer s1"
    by blast
  have fc: "fill_channels getSample 0 out s = Some (unconcat (map length out) xs, s1)"
    using c by (simp add: fill_channels_calls length_concat)
  have p: "process (out # rest) s = Some (unconcat (map length out) xs # rest, refill s1)"
    using c by (rule process_calls)
  have al2: "4800 dvd bufferSize s1" using assms(2) k by simp
  have room: "fillPointer s1 < bufferSize s1 \<longrightarrow> fillPointer s1 + 4800 \<le> bufferSize s1"
    using aligned_room [OF al2 al] by blast
  note r = refill_eq [OF wf1 room]
  note f = refill_frame [OF wf1 al2 al]
  have ne: "inactiveBuffer s1 \<noteq> activeBuffer s1" using wf1 by (auto simp: well_formed_def)
  have c: "well_formed (constructor rnd)" "4800 dvd bufferSize (constructor rnd)"
    "4800 dvd fillPointer (constructor rnd)" "frameCount (constructor rnd) = 0"
    by (rule well_formed_constructor) (simp_all add: constructor_eq)
  from fc p wf1 k al r room f ne al2 c show ?thesis by simp
qed

text \<open>
  The first nine blocks of 128 white samples after the constructor leave the cursor at
  1152 and the call count at 9, and nothing else has changed. The tenth block is a 10th
  call with the marker (0) below the capacity: the stream values number 2880000 to 2884799
  go to the places 0 to 4799 of the inactive buffer B and the marker becomes 4800. With
  the stream that is 0 up to position 2879999 and 1/2 from there on, place 0 of B
  changes from -1 to 0 and place 4800 keeps its -1. In the same state with the marker at
  the capacity 1440000, the 10th call changes the cursor and the count only.
\<close>

lemma nine_blocks:
  "m \<le> 9 \<Longrightarrow>
   map_option snd (blocks process (replicate m [[replicate 128 0]]) (constructor rnd)) =
     Some ((constructor rnd)\<lparr>index := 128 * m, frameCount := m\<rparr>)"
proof (induction m)
  case 0
  show ?case by (simp add: constructor_eq)
next
  case (Suc m)
  let ?b = "[[replicate 128 (0::real)]]"
  let ?c = "constructor rnd"
  let ?s = "?c\<lparr>index := 128 * m, frameCount := m\<rparr>"
  let ?t = "?s\<lparr>index := index ?s + 128\<rparr>"
  from Suc have "map_option snd (blocks process (replicate m ?b) ?c) = Some ?s" by simp
  then obtain outs where 1: "blocks process (replicate m ?b) ?c = Some (outs, ?s)"
    by (cases "blocks process (replicate m ?b) ?c") auto
  have wf: "well_formed ?s" using Suc.prems by (simp add: well_formed_def constructor_eq)
  have t: "noiseType ?s = ''white''" by (simp add: constructor_eq)
  have inside: "index ?s + 128 < bufferSize ?s" using Suc.prems by (simp add: constructor_eq)
  note p = process_white_inside [OF wf t inside]
  have wf': "well_formed ?t" using Suc.prems by (simp add: well_formed_def constructor_eq)
  have room: "fillPointer ?t < bufferSize ?t \<longrightarrow> fillPointer ?t + 4800 \<le> bufferSize ?t"
    by (simp add: constructor_eq)
  from Suc.prems have "Suc m mod 10 \<noteq> 0" by simp
  then have r: "refill ?t = ?c\<lparr>index := 128 * Suc m, frameCount := Suc m\<rparr>"
    unfolding refill_eq [OF wf' room] by simp
  from blocks_one_more [OF 1 p] r show ?case by simp
qed

theorem refill_policy_witness:
  "well_formed ((constructor two_level)\<lparr>index := 1152, frameCount := 9\<rparr>) \<and>
   4800 dvd bufferSize ((constructor two_level)\<lparr>index := 1152, frameCount := 9\<rparr>) \<and>
   4800 dvd fillPointer ((constructor two_level)\<lparr>index := 1152, frameCount := 9\<rparr>) \<and>
   map_option snd (blocks process (replicate 9 [[replicate 128 0]]) (constructor two_level)) =
     Some ((constructor two_level)\<lparr>index := 1152, frameCount := 9\<rparr>) \<and>
   map_option snd
     (process [[replicate 128 0]] ((constructor two_level)\<lparr>index := 1152, frameCount := 9\<rparr>)) =
     Some ((constructor two_level)
       \<lparr>index := 1280, frameCount := 10, fillPointer := 4800, randPos := 2884800,
         bufferB := overwrite (bufferB (constructor two_level)) 0
                      (fresh two_level 2880000 4800)\<rparr>) \<and>
   bufferB (constructor two_level) ! 0 = - 1 \<and>
   overwrite (bufferB (constructor two_level)) 0 (fresh two_level 2880000 4800) ! 0 = 0 \<and>
   overwrite (bufferB (constructor two_level)) 0 (fresh two_level 2880000 4800) ! 4800 = - 1 \<and>
   well_formed
     ((constructor two_level)\<lparr>index := 1152, frameCount := 9, fillPointer := 1440000\<rparr>) \<and>
   map_option snd
     (process [[replicate 128 0]]
        ((constructor two_level)\<lparr>index := 1152, frameCount := 9, fillPointer := 1440000\<rparr>)) =
     Some ((constructor two_level)\<lparr>index := 1280, frameCount := 10, fillPointer := 1440000\<rparr>)"
proof -
  define s9 where "s9 = (constructor two_level)\<lparr>index := 1152, frameCount := 9\<rparr>"
  have 1: "well_formed s9" by (simp add: s9_def well_formed_def constructor_eq)
  have 2: "4800 dvd bufferSize s9" by (simp add: s9_def constructor_eq)
  have 3: "4800 dvd fillPointer s9" by (simp add: s9_def constructor_eq)
  have 4: "map_option snd (blocks process (replicate 9 [[replicate 128 0]])
      (constructor two_level)) = Some s9"
    using nine_blocks [of 9 two_level] by (simp add: s9_def)
  from refill_policy [OF 1 2 3, of "[replicate 128 0]" "[]"] obtain out1 s1 where
    fc: "fill_channels getSample 0 [replicate 128 0] s9 = Some (out1, s1)"
    and p: "process [[replicate 128 0]] s9 = Some ([out1], refill s1)"
    and r: "refill s1 =
       (if Suc (frameCount s9) mod 10 = 0 \<and> fillPointer s1 < bufferSize s9
        then (set_buffer (inactiveBuffer s1)
                (overwrite (buffer_of (inactiveBuffer s1) s1) (fillPointer s1)
                   (fresh (rand s1) (randPos s1) 4800)) s1)
               \<lparr>randPos := randPos s1 + 4800, fillPointer := fillPointer s1 + 4800,
                 frameCount := Suc (frameCount s9)\<rparr>
        else s1\<lparr>frameCount := Suc (frameCount s9)\<rparr>)"
    by blast
  have "calls getSample 128 s9 = calls white 128 s9"
    by (intro calls_fallback) (simp add: s9_def constructor_eq)
  also have "\<dots> = Some (take 128 (drop (index s9) (buffer_of (activeBuffer s9) s9)),
      s9\<lparr>index := index s9 + 128\<rparr>)"
    by (rule calls_white_inside [OF 1]) (simp add: s9_def constructor_eq)
  finally have "fill_channels getSample 0 [replicate 128 0] s9 =
      Some ([take 128 (drop (index s9) (buffer_of (activeBuffer s9) s9))],
        s9\<lparr>index := index s9 + 128\<rparr>)"
    by (simp add: fill_channels_calls s9_def constructor_eq)
  with fc have s1: "s1 = s9\<lparr>index := index s9 + 128\<rparr>" by simp
  have "refill s1 = (constructor two_level)
       \<lparr>index := 1280, frameCount := 10, fillPointer := 4800, randPos := 2884800,
         bufferB := overwrite (bufferB (constructor two_level)) 0
                      (fresh two_level 2880000 4800)\<rparr>"
    unfolding r by (simp add: s1 s9_def constructor_eq)
  with p have 5: "map_option snd (process [[replicate 128 0]] s9) =
     Some ((constructor two_level)
       \<lparr>index := 1280, frameCount := 10, fillPointer := 4800, randPos := 2884800,
         bufferB := overwrite (bufferB (constructor two_level)) 0
                      (fresh two_level 2880000 4800)\<rparr>)"
    by simp
  have 6: "bufferB (constructor two_level) ! 0 = - 1"
    "overwrite (bufferB (constructor two_level)) 0 (fresh two_level 2880000 4800) ! 0 = 0"
    "overwrite (bufferB (constructor two_level)) 0 (fresh two_level 2880000 4800) ! 4800 = - 1"
    by (simp_all add: constructor_eq nth_overwrite two_level_def fround_m1)
  define sf where "sf = (constructor two_level)\<lparr>index := 1152, frameCount := 9,
      fillPointer := 1440000\<rparr>"
  have f1: "well_formed sf" by (simp add: sf_def well_formed_def constructor_eq)
  have f2: "4800 dvd bufferSize sf" by (simp add: sf_def constructor_eq)
  have f3: "4800 dvd fillPointer sf" by (simp add: sf_def constructor_eq)
  from refill_policy [OF f1 f2 f3, of "[replicate 128 0]" "[]"] obtain out2 s2 where
    fc2: "fill_channels getSample 0 [replicate 128 0] sf = Some (out2, s2)"
    and p2: "process [[replicate 128 0]] sf = Some ([out2], refill s2)"
    and r2: "refill s2 =
       (if Suc (frameCount sf) mod 10 = 0 \<and> fillPointer s2 < bufferSize sf
        then (set_buffer (inactiveBuffer s2)
                (overwrite (buffer_of (inactiveBuffer s2) s2) (fillPointer s2)
                   (fresh (rand s2) (randPos s2) 4800)) s2)
               \<lparr>randPos := randPos s2 + 4800, fillPointer := fillPointer s2 + 4800,
                 frameCount := Suc (frameCount sf)\<rparr>
        else s2\<lparr>frameCount := Suc (frameCount sf)\<rparr>)"
    by blast
  have "calls getSample 128 sf = calls white 128 sf"
    by (intro calls_fallback) (simp add: sf_def constructor_eq)
  also have "\<dots> = Some (take 128 (drop (index sf) (buffer_of (activeBuffer sf) sf)),
      sf\<lparr>index := index sf + 128\<rparr>)"
    by (rule calls_white_inside [OF f1]) (simp add: sf_def constructor_eq)
  finally have "fill_channels getSample 0 [replicate 128 0] sf =
      Some ([take 128 (drop (index sf) (buffer_of (activeBuffer sf) sf))],
        sf\<lparr>index := index sf + 128\<rparr>)"
    by (simp add: fill_channels_calls sf_def constructor_eq)
  with fc2 have s2: "s2 = sf\<lparr>index := index sf + 128\<rparr>" by simp
  have "refill s2 =
      (constructor two_level)\<lparr>index := 1280, frameCount := 10, fillPointer := 1440000\<rparr>"
    unfolding r2 by (simp add: s2 sf_def constructor_eq)
  with p2 have 7: "map_option snd (process [[replicate 128 0]] sf) =
     Some ((constructor two_level)\<lparr>index := 1280, frameCount := 10, fillPointer := 1440000\<rparr>)"
    by simp
  from 1 2 3 4 5 6 f1 7 show ?thesis unfolding s9_def sf_def by simp
qed

subsection \<open>The two files side by side\<close>

lemma unbuffered_regs [simp]:
  "unbuffered (s\<lparr>brownLast := b\<rparr>) = (unbuffered s)\<lparr>brownLast := b\<rparr>"
  "unbuffered (s\<lparr>blueLast := c\<rparr>) = (unbuffered s)\<lparr>blueLast := c\<rparr>"
  "unbuffered (s\<lparr>violetLast := v\<rparr>) = (unbuffered s)\<lparr>violetLast := v\<rparr>"
  "unbuffered (s\<lparr>pinkRows := rows\<rparr>) = (unbuffered s)\<lparr>pinkRows := rows\<rparr>"
  "unbuffered (s\<lparr>pinkRunningSum := r\<rparr>) = (unbuffered s)\<lparr>pinkRunningSum := r\<rparr>"
  "unbuffered (s\<lparr>pinkIndex := i\<rparr>) = (unbuffered s)\<lparr>pinkIndex := i\<rparr>"
  "unbuffered (s\<lparr>index := k\<rparr>) = (unbuffered s)\<lparr>randPos := k\<rparr>"
  "unbuffered (s\<lparr>frameCount := k\<rparr>) = unbuffered s"
  "unbuffered (s\<lparr>fillPointer := k\<rparr>) = unbuffered s"
  "unbuffered (s\<lparr>randPos := k\<rparr>) = unbuffered s"
  "unbuffered (s\<lparr>noiseType := t\<rparr>) = (unbuffered s)\<lparr>noiseType := t\<rparr>"
  by (simp_all add: unbuffered_def)

lemma unbuffered_set_buffer [simp]: "unbuffered (set_buffer b xs s) = unbuffered s"
  by (cases b) (simp_all add: unbuffered_def)

lemma unbuffered_fields [simp]:
  "noiseType (unbuffered s) = noiseType s" "pinkRows (unbuffered s) = pinkRows s"
  "pinkRunningSum (unbuffered s) = pinkRunningSum s" "pinkIndex (unbuffered s) = pinkIndex s"
  "pinkIndexMask (unbuffered s) = pinkIndexMask s" "brownLast (unbuffered s) = brownLast s"
  "blueLast (unbuffered s) = blueLast s" "violetLast (unbuffered s) = violetLast s"
  "rand (unbuffered s) = rounded (rand s)" "randPos (unbuffered s) = index s"
  by (simp_all add: unbuffered_def)

lemma rounded_white [simp]: "rounded rnd n * 2 - 1 = fround (rnd n * 2 - 1)"
  by (simp add: rounded_def add_divide_distrib)

text \<open>The bodies of the generators do the same on \<open>s\<close> and on \<open>unbuffered s\<close>.\<close>

lemma pink_body_unbuffered:
  assumes "length (pinkRows s) = 16"
  shows "pink_body w (unbuffered s) = map_option (map_prod id unbuffered) (pink_body w s)"
proof -
  have "length (pinkRows (unbuffered s)) = 16" using assms by simp
  note a = pink_body_eq [OF this] and b = pink_body_eq [OF assms]
  show ?thesis unfolding a b by (simp add: Let_def)
qed

lemma body_unbuffered:
  "brown_body w (unbuffered s) = map_prod id unbuffered (brown_body w s)"
  "blue_body w (unbuffered s) = map_prod id unbuffered (blue_body w s)"
  "violet_body w (unbuffered s) = map_prod id unbuffered (violet_body w s)"
  by (simp_all add: brown_body_eq blue_body_eq violet_body_eq)

lemma unbuffered_advance:
  "Suc (index s) < bufferSize s \<Longrightarrow>
   unbuffered (advance s) = (unbuffered s)\<lparr>randPos := Suc (randPos (unbuffered s))\<rparr>"
  by (simp add: advance_def)

text \<open>
  One sample while the cursor is in buffer A: both processors return the same value, and
  unless this was the last element of A they are again in step.
\<close>

lemma getSample_unbuffered:
  assumes "first_buffer s"
  shows "\<exists>x s1 g1. getSample s = Some (x, s1) \<and> getSample_plain (unbuffered s) = Some (x, g1) \<and>
     well_formed s1 \<and> after_read s s1 \<and>
     (Suc (index s) < bufferSize s \<longrightarrow> g1 = unbuffered s1)"
proof -
  from assms have wf: "well_formed s" and act: "activeBuffer s = BufA"
    and a: "bufferA s = fresh (rand s) 0 (bufferSize s)"
    by (simp_all add: first_buffer_def)
  from wf have i: "index s < bufferSize s" and len: "length (pinkRows s) = 16"
    by (simp_all add: well_formed_def)
  let ?w = "fround (rand s (index s) * 2 - 1)"
  let ?g = "(unbuffered s)\<lparr>randPos := Suc (index s)\<rparr>"
  have w: "buffer_of (activeBuffer s) s ! index s = ?w" using i by (simp add: act a)
  from getSample_Some [OF wf] obtain x s1 where
    g: "getSample s = Some (x, s1)" and wf1: "well_formed s1" and ar: "after_read s s1"
    by blast
  have "\<exists>g1. getSample_plain (unbuffered s) = Some (x, g1) \<and>
     (Suc (index s) < bufferSize s \<longrightarrow> g1 = unbuffered s1)"
  proof (cases "Suc (index s) < bufferSize s")
    case True
    then have ua: "unbuffered (advance s) = ?g" by (simp add: unbuffered_advance)
    have la: "length (pinkRows (advance s)) = 16" using len by simp
    have "getSample_plain (unbuffered s) = Some (x, unbuffered s1)"
      using g
      by (auto simp: getSample_def getSample_plain_def pink_eq [OF wf] brown_eq [OF wf]
          blue_eq [OF wf] violet_eq [OF wf] white_advance [OF wf] w pink_plain_eq
          brown_plain_eq blue_plain_eq violet_plain_eq white_plain_eq ua [symmetric]
          pink_body_unbuffered [OF la] body_unbuffered split: if_splits)
    with True show ?thesis by simp
  next
    case False
    have r: "pink_body ?w ?g = map_option (map_prod id (\<lambda>t. (unbuffered t)\<lparr>randPos := Suc (index s)\<rparr>))
        (pink_body ?w (advance s))"
    proof -
      have 1: "length (pinkRows ?g) = 16" "length (pinkRows (advance s)) = 16"
        using len by simp_all
      show ?thesis
        unfolding pink_body_eq [OF 1(1)] pink_body_eq [OF 1(2)] by (simp add: Let_def)
    qed
    have "\<exists>g1. getSample_plain (unbuffered s) = Some (x, g1)"
      using g
      by (auto simp: getSample_def getSample_plain_def pink_eq [OF wf] brown_eq [OF wf]
          blue_eq [OF wf] violet_eq [OF wf] white_advance [OF wf] w pink_plain_eq
          brown_plain_eq blue_plain_eq violet_plain_eq white_plain_eq r
          brown_body_eq blue_body_eq violet_body_eq split: if_splits)
    with False show ?thesis by simp
  qed
  with g wf1 ar show ?thesis by blast
qed

lemma first_buffer_after:
  assumes "first_buffer s" and "well_formed s1" and "after_read s s1"
    and "Suc (index s) < bufferSize s"
  shows "first_buffer s1 \<and> index s1 = Suc (index s) \<and> bufferSize s1 = bufferSize s"
  using assms by (simp add: first_buffer_def after_read_def advance_def)

lemma calls_unbuffered:
  assumes "first_buffer s" and "index s + n \<le> bufferSize s"
  shows "\<exists>xs s1 g1. calls getSample n s = Some (xs, s1) \<and>
     calls getSample_plain n (unbuffered s) = Some (xs, g1) \<and> well_formed s1 \<and>
     (index s + n < bufferSize s \<longrightarrow>
        g1 = unbuffered s1 \<and> first_buffer s1 \<and> index s1 = index s + n \<and>
        bufferSize s1 = bufferSize s)"
  using assms
proof (induction n arbitrary: s)
  case 0
  then show ?case by (simp add: first_buffer_def)
next
  case (Suc n)
  from getSample_unbuffered [OF Suc.prems(1)] obtain x s1 g1 where
    g: "getSample s = Some (x, s1)" "getSample_plain (unbuffered s) = Some (x, g1)"
    and wf1: "well_formed s1" and ar: "after_read s s1"
    and u: "Suc (index s) < bufferSize s \<longrightarrow> g1 = unbuffered s1"
    by blast
  show ?case
  proof (cases "Suc (index s) < bufferSize s")
    case True
    from first_buffer_after [OF Suc.prems(1) wf1 ar True]
    have fb1: "first_buffer s1" and i1: "index s1 = Suc (index s)"
      and c1: "bufferSize s1 = bufferSize s" by simp_all
    from Suc.prems(2) i1 c1 have "index s1 + n \<le> bufferSize s1" by simp
    from Suc.IH [OF fb1 this] obtain xs s2 g2 where
      c: "calls getSample n s1 = Some (xs, s2)"
      "calls getSample_plain n (unbuffered s1) = Some (xs, g2)" "well_formed s2"
      and r: "index s1 + n < bufferSize s1 \<longrightarrow>
        g2 = unbuffered s2 \<and> first_buffer s2 \<and> index s2 = index s1 + n \<and>
        bufferSize s2 = bufferSize s1"
      by blast
    from u True have "g1 = unbuffered s1" by simp
    with g c r i1 c1 show ?thesis by simp
  next
    case False
    with Suc.prems(2) have n: "n = 0" by simp
    with g wf1 False show ?thesis by simp
  qed
qed

lemma well_formed_refill: "well_formed s \<Longrightarrow> well_formed (refill s)"
proof -
  assume wf: "well_formed s"
  have len: "length (buffer_of (inactiveBuffer s) s) = bufferSize s"
    using wf by (rule well_formed_active)
  show ?thesis
  proof (cases "Suc (frameCount s) mod 10 = 0 \<and> fillPointer s < bufferSize s")
    case False
    with wf show ?thesis by (auto simp: refill_def)
  next
    case True
    let ?n = "min 4800 (bufferSize s - fillPointer s)"
    from True have "fillPointer s + ?n \<le> bufferSize s" by (auto simp: min_def)
    then have "length (overwrite (buffer_of (inactiveBuffer s) s) (fillPointer s)
        (fresh (rand s) (randPos s) ?n)) = bufferSize s"
      by (simp add: len)
    from well_formed_set_buffer [OF wf this, of "inactiveBuffer s"] True show ?thesis
      by (simp add: refill_def Let_def bufferFill_eq len set_buffer_frameCount)
  qed
qed

lemma refill_unbuffered:
  "unbuffered (refill s) = unbuffered s" "index (refill s) = index s"
  "bufferSize (refill s) = bufferSize s" "activeBuffer (refill s) = activeBuffer s"
  "rand (refill s) = rand s"
  by (simp_all add: refill_def Let_def bufferFill_eq)

lemma first_buffer_refill: "first_buffer s \<Longrightarrow> first_buffer (refill s)"
proof -
  assume fb: "first_buffer s"
  then have wf: "well_formed s" and act: "activeBuffer s = BufA"
    and a: "bufferA s = fresh (rand s) 0 (bufferSize s)"
    by (simp_all add: first_buffer_def)
  from wf act have "inactiveBuffer s = BufB"
    by (cases "inactiveBuffer s") (simp_all add: well_formed_def)
  then have "bufferA (refill s) = bufferA s"
    by (simp add: refill_def Let_def bufferFill_eq)
  with well_formed_refill [OF wf] act a show ?thesis
    by (simp add: first_buffer_def refill_unbuffered)
qed

lemma blocks_zero:
  "sum_list (map slots bs) = 0 \<Longrightarrow>
   map_option fst (blocks process bs s) = map_option fst (blocks process_plain bs g)"
proof (induction bs arbitrary: s g)
  case Nil
  show ?case by simp
next
  case (Cons b bs)
  show ?case
  proof (cases b)
    case Nil
    then show ?thesis by (simp add: process_def process_plain_def)
  next
    case (Cons out rest)
    then have "slots b = length (concat out)" by (simp add: slots_def)
    with Cons.prems have z: "length (concat out) = 0" and r: "sum_list (map slots bs) = 0"
      by simp_all
    have "calls getSample (length (concat out)) s = Some ([], s)"
      "calls getSample_plain (length (concat out)) g = Some ([], g)"
      unfolding z by simp_all
    from process_calls [OF this(1), of rest] process_plain_calls [OF this(2), of rest]
      Cons.IH [OF r, of "refill s" g] Cons
    show ?thesis
      by (cases "blocks process bs (refill s)"; cases "blocks process_plain bs g") auto
  qed
qed

lemma blocks_unbuffered:
  assumes "first_buffer s" and "index s + sum_list (map slots bs) \<le> bufferSize s"
  shows "map_option fst (blocks process bs s) =
         map_option fst (blocks process_plain bs (unbuffered s))"
  using assms
proof (induction bs arbitrary: s)
  case Nil
  show ?case by simp
next
  case (Cons b bs)
  show ?case
  proof (cases b)
    case Nil
    then show ?thesis by (simp add: process_def process_plain_def)
  next
    case b: (Cons out rest)
    let ?n = "length (concat out)"
    from b have "slots b = ?n" by (simp add: slots_def)
    with Cons.prems(2) have le: "index s + ?n + sum_list (map slots bs) \<le> bufferSize s"
      by simp
    then have "index s + ?n \<le> bufferSize s" by simp
    from calls_unbuffered [OF Cons.prems(1) this] obtain xs s1 g1 where
      c: "calls getSample ?n s = Some (xs, s1)"
      "calls getSample_plain ?n (unbuffered s) = Some (xs, g1)"
      and r: "index s + ?n < bufferSize s \<longrightarrow>
        g1 = unbuffered s1 \<and> first_buffer s1 \<and> index s1 = index s + ?n \<and>
        bufferSize s1 = bufferSize s"
      by blast
    note p = process_calls [OF c(1), of rest] process_plain_calls [OF c(2), of rest]
    have "map_option fst (blocks process bs (refill s1)) =
        map_option fst (blocks process_plain bs g1)"
    proof (cases "index s + ?n < bufferSize s")
      case True
      with r have g1: "g1 = unbuffered (refill s1)" and fb: "first_buffer (refill s1)"
        and i: "index (refill s1) = index s + ?n" "bufferSize (refill s1) = bufferSize s"
        by (simp_all add: refill_unbuffered first_buffer_refill)
      from le i have "index (refill s1) + sum_list (map slots bs) \<le> bufferSize (refill s1)"
        by simp
      from Cons.IH [OF fb this] g1 show ?thesis by simp
    next
      case False
      with le have "sum_list (map slots bs) = 0" by linarith
      then show ?thesis by (rule blocks_zero)
    qed
    with p b show ?thesis
      by (cases "blocks process bs (refill s1)"; cases "blocks process_plain bs g1") auto
  qed
qed

lemma first_buffer_constructor: "first_buffer (onmessage m (constructor rnd))"
proof -
  have "well_formed (onmessage m (constructor rnd))"
    by (simp add: well_formed_constructor)
  moreover have "activeBuffer (onmessage m (constructor rnd)) = BufA"
    "bufferA (onmessage m (constructor rnd)) =
      fresh (rand (onmessage m (constructor rnd))) 0 (bufferSize (onmessage m (constructor rnd)))"
    by (simp_all add: onmessage_def constructor_eq)
  ultimately show ?thesis by (simp add: first_buffer_def)
qed

lemma unbuffered_constructor:
  "unbuffered (onmessage m (constructor rnd)) = onmessage m (constructor_plain (rounded rnd))"
  by (simp add: onmessage_def constructor_eq constructor_plain_def unbuffered_def)

lemma blocks_process_Some:
  "well_formed s \<Longrightarrow> list_all (\<lambda>b. b \<noteq> []) bs \<Longrightarrow>
   \<exists>outs s1. blocks process bs s = Some (outs, s1)"
proof (induction bs arbitrary: s)
  case Nil
  show ?case by simp
next
  case (Cons b bs)
  from Cons.prems(2) obtain out rest where b: "b = out # rest" by (cases b) auto
  from calls_getSample_Some [OF Cons.prems(1), of "length (concat out)"]
  obtain xs s1 where c: "calls getSample (length (concat out)) s = Some (xs, s1)"
    and wf1: "well_formed s1" by blast
  from Cons.IH [OF well_formed_refill [OF wf1]] Cons.prems(2)
  obtain outs s2 where "blocks process bs (refill s1) = Some (outs, s2)" by auto
  with process_calls [OF c, of rest] b show ?case by simp
qed

text \<open>
  C9 (as the code has it). The buffers of noise-processor.js keep the white values as
  32-bit floats, the other file uses the doubles. Up to this rounding the two files
  produce the same samples as long as the double-buffered one reads its first buffer: let
  the processor without buffers draw from the stream \<open>rounded rnd\<close>, whose white values
  are the 32-bit roundings of those of \<open>rnd\<close>, and let both handle the same message \<open>m\<close>
  after construction (so the same kind). Then every list of \<^verbatim>\<open>process\<close> calls that writes
  at most 1440000 samples in all gives the same blocks in both files, and so do at most
  1440000 \<^verbatim>\<open>getSample()\<close> calls.
\<close>

theorem same_samples_in_first_buffer:
  assumes "sum_list (map slots bs) \<le> 1440000" and "n \<le> 1440000"
    and "list_all (\<lambda>b. b \<noteq> []) bs"
  shows "map_option fst (blocks process bs (onmessage m (constructor rnd))) =
         map_option fst (blocks process_plain bs (onmessage m (constructor_plain (rounded rnd)))) \<and>
     (\<exists>outs s1. blocks process bs (onmessage m (constructor rnd)) = Some (outs, s1)) \<and>
     (\<exists>xs s1 g1. calls getSample n (onmessage m (constructor rnd)) = Some (xs, s1) \<and>
        calls getSample_plain n (onmessage m (constructor_plain (rounded rnd))) =
          Some (xs, g1)) \<and>
     white_plain (constructor_plain (rounded rnd)\<lparr>randPos := k\<rparr>) =
       Some (fround (rnd k * 2 - 1), constructor_plain (rounded rnd)\<lparr>randPos := Suc k\<rparr>)"
proof -
  let ?s = "onmessage m (constructor rnd)"
  have fb: "first_buffer ?s" by (rule first_buffer_constructor)
  have i: "index ?s = 0" "bufferSize ?s = 1440000"
    by (simp_all add: onmessage_def constructor_eq)
  from assms(1) i have "index ?s + sum_list (map slots bs) \<le> bufferSize ?s" by simp
  from blocks_unbuffered [OF fb this]
  have 1: "map_option fst (blocks process bs ?s) =
         map_option fst (blocks process_plain bs (onmessage m (constructor_plain (rounded rnd))))"
    by (simp add: unbuffered_constructor)
  have "well_formed ?s" by (simp add: well_formed_constructor)
  from blocks_process_Some [OF this assms(3)]
  have 2: "\<exists>outs s1. blocks process bs ?s = Some (outs, s1)" .
  from assms(2) i have "index ?s + n \<le> bufferSize ?s" by simp
  from calls_unbuffered [OF fb this]
  have 3: "\<exists>xs s1 g1. calls getSample n ?s = Some (xs, s1) \<and>
        calls getSample_plain n (onmessage m (constructor_plain (rounded rnd))) = Some (xs, g1)"
    by (auto simp: unbuffered_constructor)
  have 4: "white_plain (constructor_plain (rounded rnd)\<lparr>randPos := k\<rparr>) =
       Some (fround (rnd k * 2 - 1), constructor_plain (rounded rnd)\<lparr>randPos := Suc k\<rparr>)"
    by (simp add: white_plain_eq constructor_plain_def)
  from 1 2 3 4 show ?thesis by blast
qed

text \<open>
  Violet noise on a stream whose even values are 15/16 and whose odd values are
  \<open>1 / 2 ^ 30\<close>: the white values are 7/8 and \<open>- 1 + 1 / 2 ^ 29\<close>, in the buffers 7/8 and
  \<open>- 1\<close>. One block of two channels with two slots each.
\<close>

theorem same_samples_in_first_buffer_witness:
  "sum_list (map slots [[[[0, 0], [0, 0]]]]) \<le> 1440000 \<and> (4::nat) \<le> 1440000 \<and>
   list_all (\<lambda>b. b \<noteq> []) [[[[0, 0], [0, 0::real]]]] \<and>
   map_option fst (blocks process [[[[0, 0], [0, 0]]]]
     (onmessage \<lparr>msg_type = ''setNoiseType'', msg_noiseType = ''violet''\<rparr>
        (constructor uneven))) =
     Some [[[[7 / 16, - 11 / 8], [15 / 8, - 15 / 8]]]] \<and>
   map_option fst (blocks process_plain [[[[0, 0], [0, 0]]]]
     (onmessage \<lparr>msg_type = ''setNoiseType'', msg_noiseType = ''violet''\<rparr>
        (constructor_plain (rounded uneven)))) =
     Some [[[[7 / 16, - 11 / 8], [15 / 8, - 15 / 8]]]]"
proof -
  let ?m = "\<lparr>msg_type = ''setNoiseType'', msg_noiseType = ''violet''\<rparr>"
  have 1: "sum_list (map slots [[[[0, 0], [0, 0]]]]) \<le> 1440000"
    by (simp add: slots_def)
  have 2: "(4::nat) \<le> 1440000" by simp
  have 3: "list_all (\<lambda>b. b \<noteq> []) [[[[0, 0], [0, 0::real]]]]" by simp
  have len: "length (concat [[0, 0], [0, 0::real]]) = 4" by simp
  have four: "(4::nat) = Suc (Suc (Suc (Suc 0)))" by simp
  have "calls getSample_plain 4 (onmessage ?m (constructor_plain (rounded uneven))) =
      Some ([7 / 16, - 11 / 8, 15 / 8, - 15 / 8],
        (constructor_plain (rounded uneven))\<lparr>noiseType := ''violet'', randPos := 4,
           violetLast := (- 1, - 15 / 8)\<rparr>)"
    by (simp add: four onmessage_def constructor_plain_def getSample_plain_def
        violet_plain_eq violet_body_eq uneven_def fround_7_8 fround_fine_value)
  from process_plain_calls [of "[[0, 0], [0, 0]]", unfolded len, OF this, of "[]"]
  have 4: "map_option fst (blocks process_plain [[[[0, 0], [0, 0]]]]
     (onmessage ?m (constructor_plain (rounded uneven)))) =
     Some [[[[7 / 16, - 11 / 8], [15 / 8, - 15 / 8]]]]"
    by simp
  from same_samples_in_first_buffer [OF 1 2 3, of ?m uneven] 1 2 3 4 show ?thesis by simp
qed

subsection \<open>Beyond the first buffer\<close>

lemma blocks_replicate:
  assumes step: "\<And>m s. m < N \<Longrightarrow> J m s \<Longrightarrow> \<exists>out s1. p b s = Some (out, s1) \<and> J (Suc m) s1"
  shows "J k s \<Longrightarrow> k + n = N \<Longrightarrow>
    \<exists>outs s1. blocks p (replicate n b) s = Some (outs, s1) \<and> J N s1"
proof (induction n arbitrary: k s)
  case 0
  then show ?case by simp
next
  case (Suc n)
  from Suc.prems have "k < N" by simp
  from step [OF this Suc.prems(1)] obtain out s1 where 1: "p b s = Some (out, s1)" "J (Suc k) s1"
    by blast
  from Suc.prems(2) have "Suc k + n = N" by simp
  from Suc.IH [OF 1(2) this] obtain outs s2 where
    "blocks p (replicate n b) s1 = Some (outs, s2)" "J N s2" by blast
  with 1 show ?case by simp
qed

lemma calls_white_plain:
  "calls white_plain n g = Some (raw (rand g) (randPos g) n, g\<lparr>randPos := randPos g + n\<rparr>)"
proof (induction n arbitrary: g)
  case 0
  show ?case by simp
next
  case (Suc n)
  show ?case using white_plain_eq [of g] by (simp add: Suc.IH raw_Suc)
qed

lemma process_plain_white:
  assumes "noiseType g = ''white''"
  shows "process_plain [[replicate k 0]] g =
     Some ([[raw (rand g) (randPos g) k]], g\<lparr>randPos := randPos g + k\<rparr>)"
proof -
  have "calls getSample_plain k g = calls white_plain k g"
    using assms by (intro calls_plain_fallback) simp
  then have "calls getSample_plain (length (concat [replicate k (0::real)])) g =
      Some (raw (rand g) (randPos g) k, g\<lparr>randPos := randPos g + k\<rparr>)"
    by (simp add: calls_white_plain)
  from process_plain_calls [OF this, of "[]"] show ?thesis by simp
qed

lemma process_white_to_end:
  assumes "well_formed s" and "noiseType s = ''white''" and "index s + k = bufferSize s"
    and "0 < k"
  shows "process [[replicate k 0]] s =
     Some ([[drop (index s) (buffer_of (activeBuffer s) s)]],
           refill (s\<lparr>index := 0, activeBuffer := inactiveBuffer s,
                     inactiveBuffer := activeBuffer s, fillPointer := 0\<rparr>))"
proof -
  have "calls getSample k s = calls white k s"
    using assms(2) by (intro calls_fallback) simp
  then have c: "calls getSample (length (concat [replicate k (0::real)])) s =
      Some (drop (index s) (buffer_of (activeBuffer s) s),
        s\<lparr>index := 0, activeBuffer := inactiveBuffer s, inactiveBuffer := activeBuffer s,
          fillPointer := 0\<rparr>)"
    using calls_white_to_end [OF assms(1,3,4)] by simp
  have "length (buffer_of (activeBuffer s) s) = bufferSize s"
    using assms(1) by (rule well_formed_active)
  with assms(3) have "length (drop (index s) (buffer_of (activeBuffer s) s)) = k"
    by simp
  with process_calls [OF c, of "[]"] show ?thesis by simp
qed

lemma draining_constructor: "draining rnd 0 (constructor rnd)"
  by (simp add: draining_def well_formed_constructor) (simp add: constructor_eq)

lemma draining_step:
  assumes "m < 11249" and "draining rnd m s"
  shows "\<exists>out s1. process [[replicate 128 0]] s = Some (out, s1) \<and> draining rnd (Suc m) s1"
proof -
  from assms(2) have wf: "well_formed s" and c: "bufferSize s = 1440000"
    and t: "noiseType s = ''white''" and r: "rand s = rnd" and a: "activeBuffer s = BufA"
    and b: "inactiveBuffer s = BufB" and i: "index s = 128 * m" and f: "frameCount s = m"
    and al: "4800 dvd fillPointer s"
    and q: "if m < 10 then fillPointer s = 0 \<and> randPos s = 2880000
      else 4800 \<le> fillPointer s \<and> bufferB s ! 0 = fround (rnd 2880000 * 2 - 1)"
    by (simp_all add: draining_def)
  let ?s = "s\<lparr>index := index s + 128\<rparr>"
  from assms(1) i c have inside: "index s + 128 < bufferSize s" by simp
  note p = process_white_inside [OF wf t inside]
  have i': "index ?s = 128 * Suc m" using i by simp
  have wf': "well_formed ?s" using wf inside by (simp add: well_formed_def)
  have al': "4800 dvd bufferSize ?s" "4800 dvd fillPointer ?s" using c al by simp_all
  have room: "fillPointer ?s < bufferSize ?s \<longrightarrow> fillPointer ?s + 4800 \<le> bufferSize ?s"
    using aligned_room [OF al'] by blast
  note e = refill_eq [OF wf' room]
  have lenB: "length (bufferB s) = 1440000" using wf c by (simp add: well_formed_def)
  have "draining rnd (Suc m) (refill ?s)"
  proof (cases "Suc (frameCount ?s) mod 10 = 0 \<and> fillPointer ?s < bufferSize ?s")
    case False
    then have e': "refill ?s = ?s\<lparr>frameCount := Suc m\<rparr>"
      unfolding e by (auto simp: f)
    from False f have "Suc m \<noteq> 10 \<or> \<not> fillPointer s < 1440000" using c by auto
    with q al have "if Suc m < 10 then fillPointer s = 0 \<and> randPos s = 2880000
      else 4800 \<le> fillPointer s \<and> bufferB s ! 0 = fround (rnd 2880000 * 2 - 1)"
      by (auto split: if_splits)
    with wf' c t r a b f al i show ?thesis unfolding draining_def e' by simp
  next
    case True
    then have m10: "Suc m mod 10 = 0" and fp: "fillPointer s < 1440000" using f c by simp_all
    from True have e': "refill ?s =
      (set_buffer BufB (overwrite (bufferB s) (fillPointer s) (fresh rnd (randPos s) 4800)) ?s)
        \<lparr>randPos := randPos s + 4800, fillPointer := fillPointer s + 4800,
          frameCount := Suc m\<rparr>"
      unfolding e by (simp add: f b r)
    from room fp c have le: "fillPointer s + 4800 \<le> 1440000" by simp
    have wf'': "well_formed (refill ?s)" using wf' by (rule well_formed_refill)
    from m10 have ge: "\<not> Suc m < 10" by presburger
    have "overwrite (bufferB s) (fillPointer s) (fresh rnd (randPos s) 4800) ! 0 =
        fround (rnd 2880000 * 2 - 1)"
    proof (cases "m < 10")
      case True
      with q have "fillPointer s = 0" "randPos s = 2880000" by simp_all
      then show ?thesis using lenB by (simp add: nth_overwrite)
    next
      case False
      with q have "4800 \<le> fillPointer s" "bufferB s ! 0 = fround (rnd 2880000 * 2 - 1)" by simp_all
      then show ?thesis using lenB le by (simp add: nth_overwrite)
    qed
    with wf'' [unfolded e'] c t r a b f al ge i show ?thesis
      unfolding draining_def e' by simp
  qed
  with p show ?thesis by blast
qed

lemma blocks_two_more:
  assumes "blocks p (replicate n b) c = Some (outs1, s1)"
    and "p b s1 = Some (o2, s2)" and "p b s2 = Some (o3, s3)"
  shows "blocks p (replicate (n + 2) b) c = Some (outs1 @ [o2, o3], s3)"
proof -
  have "replicate (n + 2) b = replicate n b @ [b, b]"
    using replicate_add [of n 2 b] by (simp add: numeral_2_eq_2)
  with assms show ?thesis by (simp add: blocks_append)
qed

lemma refill_noiseType [simp]: "noiseType (refill s) = noiseType s"
  by (simp add: refill_def Let_def bufferFill_eq)

lemma hd_raw: "0 < k \<Longrightarrow> hd (raw rnd p k) = rnd p * 2 - 1"
  by (cases k) (simp_all add: raw_Suc)

lemma hd_take_drop: "i < length xs \<Longrightarrow> 0 < k \<Longrightarrow> hd (take k (drop i xs)) = xs ! i"
  by (cases k) (simp_all add: hd_drop_conv_nth)

text \<open>
  Block 11250 ends buffer A and exchanges the buffers; the first sample of block 11251 is
  element 0 of buffer B, which the refill of the 10th block has overwritten with the
  stream value number 2880000.
\<close>

lemma buffered_block_11251:
  "\<exists>outs s. blocks process (replicate 11251 [[replicate 128 0]]) (constructor rnd) =
       Some (outs, s) \<and>
     hd (hd (hd (last outs))) = fround (rnd 2880000 * 2 - 1)"
proof -
  let ?b = "[[replicate 128 (0::real)]]"
  from blocks_replicate [of 11249 "draining rnd" process ?b 0 "constructor rnd" 11249,
      OF draining_step draining_constructor]
  obtain outs1 s1 where 1: "blocks process (replicate 11249 ?b) (constructor rnd) = Some (outs1, s1)"
    and d: "draining rnd 11249 s1"
    by auto
  from d have wf: "well_formed s1" and c: "bufferSize s1 = 1440000"
    and t: "noiseType s1 = ''white''" and a: "activeBuffer s1 = BufA"
    and b: "inactiveBuffer s1 = BufB" and i: "index s1 = 1439872" and f: "frameCount s1 = 11249"
    and v: "bufferB s1 ! 0 = fround (rnd 2880000 * 2 - 1)"
    by (simp_all add: draining_def)
  let ?s = "s1\<lparr>index := 0, activeBuffer := BufB, inactiveBuffer := BufA, fillPointer := 0\<rparr>"
  have "index s1 + 128 = bufferSize s1" using i c by simp
  from process_white_to_end [OF wf t this] a b
  have 2: "process ?b s1 = Some ([[drop (index s1) (buffer_of (activeBuffer s1) s1)]], refill ?s)"
    by simp
  have wf': "well_formed ?s" using wf c a b by (simp add: well_formed_def)
  have al: "4800 dvd bufferSize ?s" "4800 dvd fillPointer ?s" using c by simp_all
  note fr = refill_frame [OF wf' al]
  have wf2: "well_formed (refill ?s)" by (rule fr(4))
  have t2: "noiseType (refill ?s) = ''white''" using t by simp
  have a2: "activeBuffer (refill ?s) = BufB" using fr(2) by simp
  have i2: "index (refill ?s) = 0" using fr(7) by simp
  have c2: "bufferSize (refill ?s) = 1440000" using fr(5) c by simp
  have v2: "bufferB (refill ?s) ! 0 = fround (rnd 2880000 * 2 - 1)" using fr(1) v by simp
  have "index (refill ?s) + 128 < bufferSize (refill ?s)" using i2 c2 by simp
  from process_white_inside [OF wf2 t2 this]
  have 3: "process ?b (refill ?s) =
      Some ([[take 128 (drop 0 (bufferB (refill ?s)))]],
            refill ((refill ?s)\<lparr>index := index (refill ?s) + 128\<rparr>))"
    by (simp add: a2 i2)
  have "length (bufferB (refill ?s)) = 1440000" using wf2 c2 by (simp add: well_formed_def)
  then have h: "hd (take 128 (drop 0 (bufferB (refill ?s)))) = fround (rnd 2880000 * 2 - 1)"
    using v2 hd_take_drop [of 0 "bufferB (refill ?s)" 128] by simp
  from blocks_two_more [OF 1 2 3]
  have e: "blocks process (replicate 11251 ?b) (constructor rnd) =
      Some (outs1 @ [[[drop (index s1) (buffer_of (activeBuffer s1) s1)]],
                     [[take 128 (drop 0 (bufferB (refill ?s)))]]],
            refill ((refill ?s)\<lparr>index := index (refill ?s) + 128\<rparr>))"
    by simp
  have l: "hd (hd (hd (last (outs1 @
      [[[drop (index s1) (buffer_of (activeBuffer s1) s1)]],
       [[take 128 (drop 0 (bufferB (refill ?s)))]]])))) = fround (rnd 2880000 * 2 - 1)"
    using h by simp
  show ?thesis
    by (rule exI, rule exI, rule conjI, rule e, rule l)
qed

lemma plain_step:
  assumes "m < 11250" and "drawn rnd m g"
  shows "\<exists>out g1. process_plain [[replicate 128 0]] g = Some (out, g1) \<and> drawn rnd (Suc m) g1"
  using assms(2) by (simp add: drawn_def process_plain_white)

lemma plain_block_11251:
  "\<exists>outs g. blocks process_plain (replicate 11251 [[replicate 128 0]]) (constructor_plain rnd) =
       Some (outs, g) \<and>
     hd (hd (hd (last outs))) = rnd 1440000 * 2 - 1"
proof -
  let ?b = "[[replicate 128 (0::real)]]"
  have "drawn rnd 0 (constructor_plain rnd)"
    by (simp add: drawn_def constructor_plain_def)
  from blocks_replicate [of 11250 "drawn rnd" process_plain ?b 0 "constructor_plain rnd" 11250,
      OF plain_step this]
  obtain outs1 g1 where
    1: "blocks process_plain (replicate 11250 ?b) (constructor_plain rnd) = Some (outs1, g1)"
    and d: "drawn rnd 11250 g1"
    by auto
  from d have k: "noiseType g1 = ''white''" "rand g1 = rnd" "randPos g1 = 1440000"
    by (simp_all add: drawn_def)
  from process_plain_white [OF k(1), of 128] k
  have 2: "process_plain ?b g1 =
      Some ([[raw rnd 1440000 128]], g1\<lparr>randPos := randPos g1 + 128\<rparr>)"
    by simp
  have h: "hd (raw rnd 1440000 128) = rnd 1440000 * 2 - 1"
    by (simp add: hd_raw)
  from blocks_one_more [OF 1 2]
  have e: "blocks process_plain (replicate 11251 ?b) (constructor_plain rnd) =
      Some (outs1 @ [[[raw rnd 1440000 128]]], g1\<lparr>randPos := randPos g1 + 128\<rparr>)"
    by simp
  have l: "hd (hd (hd (last (outs1 @ [[[raw rnd 1440000 128]]])))) =
      rnd 1440000 * 2 - 1"
    using h by simp
  show ?thesis
    by (rule exI, rule exI, rule conjI, rule e, rule l)
qed

text \<open>
  The two files do not produce the same samples. First, the buffers keep 32-bit floats:
  with \<^verbatim>\<open>Math.random()\<close> equal to \<open>1 / 2 ^ 30\<close> the first white sample is \<open>- 1\<close> with the
  buffers and \<open>- 1 + 1 / 2 ^ 29\<close> without. Second, after the first buffer the two files are
  at different places of the stream. White noise in blocks of one channel of 128 samples,
  with a stream that is 0 up to position 2879999 and 1/2 from position 2880000 on (all
  its white values are 32-bit floats): the first sample of block 11251 is the sample
  number 1440000. Without buffers it is made of the stream value number 1440000 and is
  -1; with the buffers it is made of the value number 2880000 and is 0.
\<close>

theorem variants_differ:
  "map_option fst (getSample (constructor fine)) = Some (- 1) \<and>
   map_option fst (getSample_plain (constructor_plain fine)) = Some (- 1 + 1 / 2 ^ 29) \<and>
   map_option (hd \<circ> hd \<circ> hd \<circ> last \<circ> fst)
     (blocks process (replicate 11251 [[replicate 128 0]]) (constructor two_level)) = Some 0 \<and>
   map_option (hd \<circ> hd \<circ> hd \<circ> last \<circ> fst)
     (blocks process_plain (replicate 11251 [[replicate 128 0]]) (constructor_plain two_level)) =
     Some (- 1)"
proof -
  have "getSample (constructor fine) = white (constructor fine)"
    by (simp add: getSample_def constructor_eq)
  then have a: "map_option fst (getSample (constructor fine)) = Some (- 1)"
    unfolding white_advance [OF well_formed_constructor]
    by (simp add: constructor_eq fround_fine_white)
  have b: "map_option fst (getSample_plain (constructor_plain fine)) = Some (- 1 + 1 / 2 ^ 29)"
    by (simp add: getSample_plain_def constructor_plain_def white_plain_eq fine_def)
  from buffered_block_11251 [of two_level] obtain outs s where
    "blocks process (replicate 11251 [[replicate 128 0]]) (constructor two_level) =
       Some (outs, s)" "hd (hd (hd (last outs))) = fround (two_level 2880000 * 2 - 1)"
    by blast
  then have 1: "map_option (hd \<circ> hd \<circ> hd \<circ> last \<circ> fst)
     (blocks process (replicate 11251 [[replicate 128 0]]) (constructor two_level)) = Some 0"
    by (simp add: two_level_def)
  from plain_block_11251 [of two_level] obtain outs' g where
    "blocks process_plain (replicate 11251 [[replicate 128 0]]) (constructor_plain two_level) =
       Some (outs', g)" "hd (hd (hd (last outs'))) = two_level 1440000 * 2 - 1"
    by blast
  then have "map_option (hd \<circ> hd \<circ> hd \<circ> last \<circ> fst)
     (blocks process_plain (replicate 11251 [[replicate 128 0]]) (constructor_plain two_level)) =
     Some (- 1)"
    by (simp add: two_level_def)
  with a b 1 show ?thesis by simp
qed

subsection \<open>Bounds of the first 10000 samples\<close>

text \<open>
  C5 (as the code has it). With every \<^verbatim>\<open>Math.random()\<close> value in \<open>[0, 1)\<close>, a freshly
  constructed processor set to a kind \<open>t\<close> returns a sample at each of \<open>n\<close> consecutive
  \<^verbatim>\<open>getSample()\<close> calls, \<open>n\<close> up to 10000, and every sample is within the bound of the
  kind: 1 for white and pink, 3.5 for brown, 1.4 for blue and 2 for violet. Both files.
\<close>

theorem samples_bounded:
  assumes "\<forall>n. 0 \<le> rnd n \<and> rnd n < 1" and "n \<le> 10000"
  shows "(\<exists>xs s. calls getSample n
             (onmessage \<lparr>msg_type = ''setNoiseType'', msg_noiseType = t\<rparr> (constructor rnd)) =
             Some (xs, s) \<and>
           list_all (\<lambda>x. \<bar>x\<bar> \<le> kind_bound t) xs) \<and>
         (\<exists>xs g. calls getSample_plain n
             (onmessage \<lparr>msg_type = ''setNoiseType'', msg_noiseType = t\<rparr>
                (constructor_plain rnd)) = Some (xs, g) \<and>
           list_all (\<lambda>x. \<bar>x\<bar> \<le> kind_bound t) xs) \<and>
         kind_bound ''white'' = 1 \<and> kind_bound ''pink'' = 1 \<and> kind_bound ''brown'' = 3.5 \<and>
         kind_bound ''blue'' = 1.4 \<and> kind_bound ''violet'' = 2"
proof -
  let ?m = "\<lparr>msg_type = ''setNoiseType'', msg_noiseType = t\<rparr>"
  from assms have rnd: "\<forall>n. 0 \<le> rnd n \<and> rnd n \<le> 1" by (simp add: less_imp_le)
  from assms(2) have n: "0 + n \<le> 10000" by simp
  have i: "bounded_state t 0 (onmessage ?m (constructor rnd))"
  proof -
    have "noiseType (onmessage ?m (constructor rnd)) = t" by (simp add: onmessage_def)
    with constructor_bounded [OF rnd] well_formed_constructor [of rnd] show ?thesis
      by (simp add: bounded_state_def)
  qed
  from calls_counted [where N = 10000 and J = "bounded_state t" and f = getSample
      and Q = "\<lambda>x. \<bar>x\<bar> \<le> kind_bound t", OF getSample_bounded i n]
  have 1: "\<exists>xs s. calls getSample n (onmessage ?m (constructor rnd)) = Some (xs, s) \<and>
           list_all (\<lambda>x. \<bar>x\<bar> \<le> kind_bound t) xs"
    by blast
  have j: "bounded_plain t 0 (onmessage ?m (constructor_plain rnd))"
  proof -
    have "noiseType (onmessage ?m (constructor_plain rnd)) = t"
      "rand (onmessage ?m (constructor_plain rnd)) = rnd"
      by (simp_all add: onmessage_def constructor_plain_def)
    with constructor_bounded [OF rnd] rnd show ?thesis by (simp add: bounded_plain_def)
  qed
  from calls_counted [where N = 10000 and J = "bounded_plain t" and f = getSample_plain
      and Q = "\<lambda>x. \<bar>x\<bar> \<le> kind_bound t", OF getSample_plain_bounded j n]
  have 2: "\<exists>xs g. calls getSample_plain n (onmessage ?m (constructor_plain rnd)) =
         Some (xs, g) \<and> list_all (\<lambda>x. \<bar>x\<bar> \<le> kind_bound t) xs"
    by blast
  have 3: "kind_bound ''white'' = 1 \<and> kind_bound ''pink'' = 1 \<and> kind_bound ''brown'' = 3.5 \<and>
         kind_bound ''blue'' = 1.4 \<and> kind_bound ''violet'' = 2"
    by (simp add: kind_bound_def)
  from 1 2 3 show ?thesis by blast
qed

lemma alternating_range: "\<forall>n. 0 \<le> alternating n \<and> alternating n < 1"
  by (simp add: alternating_def)

theorem samples_bounded_witness:
  "(\<forall>n. 0 \<le> alternating n \<and> alternating n < 1) \<and> (10000::nat) \<le> 10000 \<and>
   (\<exists>xs s. calls getSample 10000
       (onmessage \<lparr>msg_type = ''setNoiseType'', msg_noiseType = ''violet''\<rparr>
          (constructor alternating)) = Some (xs, s) \<and>
     list_all (\<lambda>x. \<bar>x\<bar> \<le> kind_bound ''violet'') xs) \<and>
   (\<exists>xs g. calls getSample_plain 10000
       (onmessage \<lparr>msg_type = ''setNoiseType'', msg_noiseType = ''violet''\<rparr>
          (constructor_plain alternating)) = Some (xs, g) \<and>
     list_all (\<lambda>x. \<bar>x\<bar> \<le> kind_bound ''violet'') xs)"
proof -
  have 1: "(10000::nat) \<le> 10000" by simp
  from samples_bounded [OF alternating_range 1, of "''violet''"] alternating_range 1
  show ?thesis by blast
qed

text \<open>
  Violet is not within \<open>[-1, 1]\<close>: with the uniform stream alternating between 15/16 and
  1/16 the first three violet samples are 7/16, -21/16 and 7/4.
\<close>

theorem violet_exceeds_one:
  "map_option fst (calls getSample 3
     (onmessage \<lparr>msg_type = ''setNoiseType'', msg_noiseType = ''violet''\<rparr>
        (constructor alternating))) = Some [7 / 16, - 21 / 16, 7 / 4] \<and>
   map_option fst (calls getSample_plain 3
     (onmessage \<lparr>msg_type = ''setNoiseType'', msg_noiseType = ''violet''\<rparr>
        (constructor_plain alternating))) = Some [7 / 16, - 21 / 16, 7 / 4]"
proof -
  let ?m = "\<lparr>msg_type = ''setNoiseType'', msg_noiseType = ''violet''\<rparr>"
  define s0 where "s0 = (constructor alternating)\<lparr>noiseType := ''violet''\<rparr>"
  have m: "onmessage ?m (constructor alternating) = s0"
    by (simp add: onmessage_def s0_def)
  define s1 where "s1 = (constructor alternating)\<lparr>noiseType := ''violet'', index := 1,
      violetLast := (7 / 8, 7 / 8)\<rparr>"
  define s2 where "s2 = (constructor alternating)\<lparr>noiseType := ''violet'', index := 2,
      violetLast := (- 7 / 8, - 7 / 4)\<rparr>"
  define s3 where "s3 = (constructor alternating)\<lparr>noiseType := ''violet'', index := 3,
      violetLast := (7 / 8, 7 / 4)\<rparr>"
  have wf: "well_formed s0" "well_formed s1" "well_formed s2"
    by (simp_all add: s0_def s1_def s2_def well_formed_def constructor_eq)
  have 1: "getSample s0 = Some (7 / 16, s1)"
    unfolding getSample_def violet_eq [OF wf(1)]
    by (simp add: s0_def s1_def constructor_eq advance_def violet_body_eq alternating_def
        fround_7_8 fround_m7_8)
  have 2: "getSample s1 = Some (- 21 / 16, s2)"
    unfolding getSample_def violet_eq [OF wf(2)]
    by (simp add: s1_def s2_def constructor_eq advance_def violet_body_eq alternating_def
        fround_7_8 fround_m7_8)
  have 3: "getSample s2 = Some (7 / 4, s3)"
    unfolding getSample_def violet_eq [OF wf(3)]
    by (simp add: s2_def s3_def constructor_eq advance_def violet_body_eq alternating_def
        fround_7_8 fround_m7_8)
  have a: "map_option fst (calls getSample 3 (onmessage ?m (constructor alternating))) =
      Some [7 / 16, - 21 / 16, 7 / 4]"
    unfolding m using 1 2 3 by (simp add: numeral_3_eq_3)
  have "map_option fst (calls getSample_plain 3 (onmessage ?m (constructor_plain alternating))) =
      Some [7 / 16, - 21 / 16, 7 / 4]"
    by (simp add: numeral_3_eq_3 onmessage_def constructor_plain_def getSample_plain_def
        violet_plain_eq violet_body_eq alternating_def)
  with a show ?thesis by simp
qed

end
